theory Spec2Isabelle
  imports Main "HOL-Library.AList"
begin

section \<open>Feature structures (l3/morpho/fs.py)\<close>

text \<open>
  A Python value that can sit under a feature name: \<open>None\<close>, a boolean, an integer, a
  string, or a nested \<open>FeatStruct\<close>. A \<open>FeatStruct\<close> object has the dictionary
  \<open>_features\<close> (an association list in insertion order, as a Python \<open>dict\<close> keeps it),
  the set \<open>_types\<close> of type parents (a list read as a set) and the flag \<open>_frozen\<close>.
  The values of this type are trees: reentrant (shared or cyclic) structures are outside
  the model. The strings \<open>'nil'\<close> and \<open>'fail'\<close> are ordinary Python strings that the
  unifier uses as sentinels, so they are ordinary \<open>VStr\<close> values here too.
\<close>

datatype val = VNone | VBool bool | VInt int | VStr string | VFS fs
  and fs = FeatStruct (features: "(string \<times> val) list") (types: "fs list") (frozen: bool)

text \<open>The invariant of the representation: a dictionary has each key once, at every level.\<close>

fun wf_val :: "val \<Rightarrow> bool"
  and wf_fs :: "fs \<Rightarrow> bool" where
  "wf_val (VFS f) = wf_fs f"
| "wf_val VNone = True"
| "wf_val (VBool b) = True"
| "wf_val (VInt i) = True"
| "wf_val (VStr s) = True"
| "wf_fs (FeatStruct fx tx z) =
     (distinct (map fst fx) \<and> list_all (\<lambda>p. wf_val (snd p)) fx \<and> list_all wf_fs tx)"

text \<open>
  Python's \<open>==\<close> on these values, and \<open>FeatStruct.equal_values\<close> (the method \<open>_equal\<close>
  started with empty visited sets, which is also \<open>__eq__\<close>). \<open>True == 1\<close> and \<open>False == 0\<close> hold in Python. \<open>_equal\<close> compares the
  type sets, the number of features, the sets of feature names, and then each value of
  \<open>self\<close> with the value \<open>other\<close> has under the same name; the frozen flag is not looked at.
  Its first test, \<open>self is other\<close>, and its table of visited pairs only matter for
  reentrant structures.
\<close>

fun py_eq :: "val \<Rightarrow> val \<Rightarrow> bool"
  and equal_values :: "fs \<Rightarrow> fs \<Rightarrow> bool" where
  "py_eq (VFS a) y = (case y of VFS b \<Rightarrow> equal_values a b | _ \<Rightarrow> False)"
| "py_eq VNone y = (y = VNone)"
| "py_eq (VBool b) y =
     (case y of VBool c \<Rightarrow> b = c | VInt j \<Rightarrow> j = (if b then 1 else 0) | _ \<Rightarrow> False)"
| "py_eq (VInt i) y =
     (case y of VInt j \<Rightarrow> i = j | VBool c \<Rightarrow> i = (if c then 1 else 0) | _ \<Rightarrow> False)"
| "py_eq (VStr s) y = (y = VStr s)"
| "equal_values (FeatStruct fx tx z) other =
     (list_all (\<lambda>t. list_ex (\<lambda>s. equal_values t s) (types other)) tx \<and>
      list_all (\<lambda>s. list_ex (\<lambda>t. equal_values t s) tx) (types other) \<and>
      length fx = length (features other) \<and>
      set (map fst fx) = set (map fst (features other)) \<and>
      list_all (\<lambda>p. case map_of (features other) (fst p) of
                       None \<Rightarrow> False
                     | Some w \<Rightarrow> py_eq (snd p) w) fx)"

subsection \<open>Freezing\<close>

text \<open>
  \<open>_freeze\<close> sets the flag and goes into every value that is a \<open>FeatStruct\<close>;
  \<open>freeze\<close> does nothing on a structure whose own flag is already set.
\<close>

fun freeze_val :: "val \<Rightarrow> val"
  and freeze_rec :: "fs \<Rightarrow> fs" where
  "freeze_val (VFS f) = VFS (freeze_rec f)"
| "freeze_val VNone = VNone"
| "freeze_val (VBool b) = VBool b"
| "freeze_val (VInt i) = VInt i"
| "freeze_val (VStr s) = VStr s"
| "freeze_rec (FeatStruct fx tx z) =
     FeatStruct (map (\<lambda>p. (fst p, freeze_val (snd p))) fx) tx True"

definition freeze :: "fs \<Rightarrow> fs" where
  "freeze f = (if frozen f then f else freeze_rec f)"

subsection \<open>Simple unification\<close>

text \<open>
  \<open>FeatStruct.get(name, default)\<close> for a feature name, and \<open>result[k] = u\<close> on the
  dictionary of an unfrozen structure.
\<close>

definition get :: "fs \<Rightarrow> string \<Rightarrow> val \<Rightarrow> val" where
  "get f k dflt = (case map_of (features f) k of None \<Rightarrow> dflt | Some v \<Rightarrow> v)"

definition put :: "string \<Rightarrow> val \<Rightarrow> fs \<Rightarrow> fs" where
  "put k v f = FeatStruct (AList.update k v (features f)) (types f) (frozen f)"

text \<open>
  \<open>simple_unify\<close> and \<open>unify_dicts\<close>; \<open>unify_loop\<close> is the \<open>for k in ...\<close> loop of
  \<open>unify_dicts\<close>, with \<open>result\<close> as its accumulator. The loop runs over
  \<open>set(x.keys()) | set(y.keys())\<close>; Python leaves the order of a set open, the model
  takes the names of \<open>x\<close> and then the new names of \<open>y\<close>. Whether the loop fails does
  not depend on the order, and the order of a dictionary is not seen by \<open>==\<close>.
\<close>

function simple_unify :: "val \<Rightarrow> val \<Rightarrow> val"
  and unify_dicts :: "fs \<Rightarrow> fs \<Rightarrow> val"
  and unify_loop :: "string list \<Rightarrow> fs \<Rightarrow> fs \<Rightarrow> fs \<Rightarrow> val" where
  "simple_unify x y =
     (if py_eq x y then x
      else (case x of
              VFS a \<Rightarrow> (case y of VFS b \<Rightarrow> unify_dicts a b | _ \<Rightarrow> VStr ''fail'')
            | _ \<Rightarrow> VStr ''fail''))"
| "unify_dicts x y =
     unify_loop (remdups (map fst (features x) @ map fst (features y))) x y
       (FeatStruct [] [] False)"
| "unify_loop [] x y result = VFS result"
| "unify_loop (k # ks) x y result =
     (let x_val = get x k (VStr ''nil''); y_val = get y k (VStr ''nil'') in
      if \<not> py_eq x_val (VStr ''nil'') then
        if \<not> py_eq y_val (VStr ''nil'') then
          (let u = simple_unify x_val y_val in
           if py_eq u (VStr ''fail'') then VStr ''fail''
           else unify_loop ks x y (put k u result))
        else unify_loop ks x y (put k x_val result)
      else if \<not> py_eq y_val (VStr ''nil'') then unify_loop ks x y (put k y_val result)
      else unify_loop ks x y result)"
  by pat_completeness auto
termination
proof -
  have less: "size v < Suc (size_list (size_prod (\<lambda>_. 0) size) fx)"
    if "map_of fx k = Some v" for fx :: "(string \<times> val) list" and v k
    using that by (induction fx) (auto split: if_splits)
  have sub: "size (get x k (VStr ''nil'')) < size x"
    if "\<not> py_eq (get x k (VStr ''nil'')) (VStr ''nil'')" for x k
    using that by (cases x) (auto simp: get_def dest: less split: option.splits)
  show ?thesis
    by (relation "measures [
    (\<lambda>a. case a of Inl (x, y) \<Rightarrow> size x
                   | Inr (Inl (x, y)) \<Rightarrow> size x
                   | Inr (Inr (ks, x, y, r)) \<Rightarrow> size x),
    (\<lambda>a. case a of Inl (x, y) \<Rightarrow> 0
                   | Inr (Inl (x, y)) \<Rightarrow> 1
                   | Inr (Inr (ks, x, y, r)) \<Rightarrow> 0),
    (\<lambda>a. case a of Inl (x, y) \<Rightarrow> 0
                   | Inr (Inl (x, y)) \<Rightarrow> 0
                   | Inr (Inr (ks, x, y, r)) \<Rightarrow> length ks)]") (simp_all add: sub)
qed

declare simple_unify.simps [simp del] unify_dicts.simps [simp del]


text \<open>
  What a feature contributes to a unification. \<open>unify_dicts\<close> reads both operands with
  \<open>get(k, 'nil')\<close>, so for it a name has a value in an operand when the operand holds
  something other than the string \<open>'nil'\<close> under that name. \<open>clash\<close>: both operands
  have a value and the values do not unify. \<open>merged\<close>: the value the result holds.
\<close>

definition has_value :: "fs \<Rightarrow> string \<Rightarrow> bool" where
  "has_value f k = (get f k (VStr ''nil'') \<noteq> VStr ''nil'')"

definition clash :: "fs \<Rightarrow> fs \<Rightarrow> string \<Rightarrow> bool" where
  "clash x y k =
     (has_value x k \<and> has_value y k \<and>
      simple_unify (get x k (VStr ''nil'')) (get y k (VStr ''nil'')) = VStr ''fail'')"

definition merged :: "fs \<Rightarrow> fs \<Rightarrow> string \<Rightarrow> val option" where
  "merged x y k =
     (if has_value x k then
        if has_value y k
        then Some (simple_unify (get x k (VStr ''nil'')) (get y k (VStr ''nil'')))
        else Some (get x k (VStr ''nil''))
      else if has_value y k then Some (get y k (VStr ''nil'')) else None)"

subsection \<open>Mutating methods\<close>

text \<open>
  A feature is addressed by a name or by a path, a tuple of names. The exceptions the
  mutating methods raise are values of \<open>pyerr\<close>. A method call is a function from the
  receiver to the exception raised, if any, and the receiver after the call.
\<close>

datatype name_or_path = Name string | Path "string list"

datatype pyerr =
    ValueError string
  | KeyError name_or_path
  | TypeError string
  | IndexError
  | AttributeError string

definition FROZEN_ERROR :: string where
  "FROZEN_ERROR = ''Frozen FeatStructs may not be modified''"

text \<open>
  \<open>_path_parent\<close> walks all names of the path but the last; \<open>walk\<close> is its loop and
  gives \<open>None\<close> where the method raises \<open>KeyError(path)\<close>. \<open>at_path ns h f\<close> is \<open>f\<close> after the
  structure that \<open>walk ns f\<close> reaches has been changed by \<open>h\<close>.
\<close>

fun walk :: "string list \<Rightarrow> fs \<Rightarrow> fs option" where
  "walk [] f = Some f"
| "walk (n # ns) f =
     (case map_of (features f) n of Some (VFS g) \<Rightarrow> walk ns g | _ \<Rightarrow> None)"

fun at_path :: "string list \<Rightarrow> (fs \<Rightarrow> fs) \<Rightarrow> fs \<Rightarrow> fs" where
  "at_path [] h f = h f"
| "at_path (n # ns) h f =
     (case map_of (features f) n of
        Some (VFS g) \<Rightarrow>
          FeatStruct (AList.update n (VFS (at_path ns h g)) (features f)) (types f) (frozen f)
      | _ \<Rightarrow> f)"

definition remove :: "string \<Rightarrow> fs \<Rightarrow> fs" where
  "remove k f = FeatStruct (AList.delete k (features f)) (types f) (frozen f)"

fun setitem :: "fs \<Rightarrow> name_or_path \<Rightarrow> val \<Rightarrow> pyerr option \<times> fs" where
  "setitem self (Name k) v =
     (if frozen self then (Some (ValueError FROZEN_ERROR), self)
      else (None, put k v self))"
| "setitem self (Path p) v =
     (if frozen self then (Some (ValueError FROZEN_ERROR), self)
      else if p = [] then (Some (TypeError ''The path () can not be set''), self)
      else (case walk (butlast p) self of
              None \<Rightarrow> (Some (KeyError (Path p)), self)
            | Some parent \<Rightarrow>
                if frozen parent then (Some (ValueError FROZEN_ERROR), self)
                else (None, at_path (butlast p) (put (last p) v) self)))"

fun delitem :: "fs \<Rightarrow> name_or_path \<Rightarrow> pyerr option \<times> fs" where
  "delitem self (Name k) =
     (if frozen self then (Some (ValueError FROZEN_ERROR), self)
      else if map_of (features self) k = None then (Some (KeyError (Name k)), self)
      else (None, remove k self))"
| "delitem self (Path p) =
     (if frozen self then (Some (ValueError FROZEN_ERROR), self)
      else if p = [] then (Some (TypeError ''The path () can not be deleted''), self)
      else (case walk (butlast p) self of
              None \<Rightarrow> (Some (KeyError (Path p)), self)
            | Some parent \<Rightarrow>
                if map_of (features parent) (last p) = None
                then (Some (KeyError (Path p)), self)
                else (None, at_path (butlast p) (remove (last p)) self)))"

definition clear :: "fs \<Rightarrow> pyerr option \<times> fs" where
  "clear self =
     (if frozen self then (Some (ValueError FROZEN_ERROR), self)
      else (None, FeatStruct [] (types self) (frozen self)))"

text \<open>
  \<open>update(features, **morefeatures)\<close>, for \<open>features\<close> a mapping or a list of pairs whose
  names are strings: after the test of the flag, \<open>self[key] = val\<close> for each item in turn.
\<close>

definition update :: "fs \<Rightarrow> (string \<times> val) list \<Rightarrow> (string \<times> val) list \<Rightarrow> pyerr option \<times> fs" where
  "update self items morefeatures =
     (if frozen self then (Some (ValueError FROZEN_ERROR), self)
      else (None, foldl (\<lambda>f p. put (fst p) (snd p) f) self (items @ morefeatures)))"

subsection \<open>Copying and unfreezing\<close>

text \<open>
  \<open>__deepcopy__\<close> makes a new, unfrozen \<open>FeatStruct\<close>, gives it the same \<open>_types\<close> set, and
  stores a deep copy of every value under its name, in the order of \<open>self.items()\<close> (the
  names of a dictionary are distinct, so the copy lists them in the same order).
  \<open>copy(deep=False)\<close> is \<open>FeatStruct(self)\<close>: a new structure without types, updated from
  \<open>self\<close>.
\<close>

fun deepcopy_val :: "val \<Rightarrow> val"
  and deepcopy :: "fs \<Rightarrow> fs" where
  "deepcopy_val (VFS f) = VFS (deepcopy f)"
| "deepcopy_val VNone = VNone"
| "deepcopy_val (VBool b) = VBool b"
| "deepcopy_val (VInt i) = VInt i"
| "deepcopy_val (VStr s) = VStr s"
| "deepcopy (FeatStruct fx tx z) =
     FeatStruct (map (\<lambda>p. (fst p, deepcopy_val (snd p))) fx) tx False"

definition copy :: "fs \<Rightarrow> bool \<Rightarrow> fs" where
  "copy self deep =
     (if deep then deepcopy self
      else snd (update (FeatStruct [] [] False) (features self) []))"

text \<open>
  \<open>unfreeze\<close> returns either the receiver itself or a new object; the model keeps the two
  apart, since values alone do not tell an object from an equal copy of it.
\<close>

datatype returned = Self | New fs

definition unfreeze :: "fs \<Rightarrow> returned" where
  "unfreeze self = (if frozen self then New (copy self True) else Self)"

definition deref :: "fs \<Rightarrow> returned \<Rightarrow> fs" where
  "deref self r = (case r of Self \<Rightarrow> self | New f \<Rightarrow> f)"

text \<open>A structure none of whose parts, at any depth, is frozen.\<close>

fun mutable_val :: "val \<Rightarrow> bool"
  and mutable :: "fs \<Rightarrow> bool" where
  "mutable_val (VFS f) = mutable f"
| "mutable_val VNone = True"
| "mutable_val (VBool b) = True"
| "mutable_val (VInt i) = True"
| "mutable_val (VStr s) = True"
| "mutable (FeatStruct fx tx z) = (\<not> z \<and> list_all (\<lambda>p. mutable_val (snd p)) fx)"

section \<open>Sets of feature structures and the semirings (l3/morpho/semiring.py)\<close>

text \<open>
  An \<open>FSSet\<close> is a Python \<open>set\<close> of frozen feature structures. It is modelled as the
  list of its members, no two of them equal under \<open>==\<close>; the order of the list stands
  for the order in which Python happens to iterate. \<open>set_add\<close> is the insertion of one
  item by \<open>set.__init__\<close>: an item equal to a member is not added (equal structures
  have equal hashes, since \<open>_hash\<close> adds up the hashes of names and values).
\<close>

type_synonym fsset = "fs list"

definition set_add :: "fsset \<Rightarrow> fs \<Rightarrow> fsset" where
  "set_add s f = (if list_ex (\<lambda>g. equal_values g f) s then s else s @ [f])"

text \<open>
  \<open>FSSet(*items)\<close> for items that are feature structures: each is frozen, then the set
  is built. (An item that is a string would be parsed first; the unifier never passes one.)
\<close>

definition FSSet :: "fs list \<Rightarrow> fsset" where
  "FSSet items = foldl set_add [] (map freeze items)"

text \<open>\<open>TOP = FeatStruct('[]')\<close>, frozen, and \<open>TOPFSS = FSSet(TOP)\<close>.\<close>

definition TOP :: fs where
  "TOP = freeze (FeatStruct [] [] False)"

definition TOPFSS :: fsset where
  "TOPFSS = FSSet [TOP]"

text \<open>
  Modelled from the spec: \<open>every\<close> of \<open>l3/morpho/utils.py\<close>, which is not among the
  sources. The spec reads the test as "every pairwise unification can be reduced to TOP":
  the predicate holds for all elements of the sequence.
\<close>

definition every :: "('a \<Rightarrow> bool) \<Rightarrow> 'a list \<Rightarrow> bool" where
  "every p xs = list_all p xs"

text \<open>
  The items that \<open>filter(lambda x: x != 'fail', result1)\<close> hands to \<open>FSSet\<close>. The
  unification of two feature structures is a feature structure or \<open>'fail'\<close>
  (\<open>simple_unify_cases\<close> below), so every item left by the filter is a \<open>FeatStruct\<close>.
\<close>

fun fs_items :: "val list \<Rightarrow> fs list" where
  "fs_items [] = []"
| "fs_items (VFS f # vs) = f # fs_items vs"
| "fs_items (v # vs) = fs_items vs"

text \<open>\<open>FSSet.unify\<close>, the multiplication \<open>uni_mult\<close> of the unification semiring.\<close>

definition result1 :: "fsset \<Rightarrow> fsset \<Rightarrow> val list" where
  "result1 self fs2 = concat (map (\<lambda>f1. map (\<lambda>f2. simple_unify (VFS f1) (VFS f2)) fs2) self)"

definition unify :: "fsset \<Rightarrow> fsset \<Rightarrow> fsset" where
  "unify self fs2 =
     (if every (\<lambda>x. py_eq x (VFS TOP)) (result1 self fs2) then TOPFSS
      else FSSet (fs_items (filter (\<lambda>x. \<not> py_eq x (VStr ''fail'')) (result1 self fs2))))"

text \<open>
  Python's \<open>==\<close> on two sets of feature structures: each member of the one is equal to
  a member of the other.
\<close>

definition fsset_eq :: "fsset \<Rightarrow> fsset \<Rightarrow> bool" where
  "fsset_eq s t =
     (list_all (\<lambda>f. list_ex (\<lambda>g. equal_values f g) t) s \<and>
      list_all (\<lambda>g. list_ex (\<lambda>f. equal_values f g) s) t)"

text \<open>
  A feature structure without types none of whose features holds the string \<open>'nil'\<close>.
\<close>

definition plain_fs :: "fs \<Rightarrow> bool" where
  "plain_fs f = (wf_fs f \<and> types f = [] \<and> VStr ''nil'' \<notin> snd ` set (features f))"

text \<open>
  The semiring class, and the unification semiring. A weight of the unification
  semiring is a Python object of the class \<open>set\<close> or of its subclass \<open>FSSet\<close>; only an
  \<open>FSSet\<close> has the method \<open>unify\<close>. \<open>uni_add\<close> is \<open>x.union(y)\<close>, which builds a plain \<open>set\<close>:
  the members of \<open>x\<close> and then the new ones of \<open>y\<close>. \<open>uni_mult\<close> is \<open>x.unify(y)\<close>, which
  raises \<open>AttributeError\<close> when \<open>x\<close> is a plain \<open>set\<close>. The zero is \<open>set()\<close>, a plain empty
  set; the one is \<open>TOPFSS\<close>. (\<open>in_set\<close>, a test of the Python class, is left out.)
\<close>

datatype weight = PySet fsset | FSSetObj fsset

definition members :: "weight \<Rightarrow> fsset" where
  "members w = (case w of PySet s \<Rightarrow> s | FSSetObj s \<Rightarrow> s)"

record 'w semiring =
  addition :: "'w \<Rightarrow> 'w \<Rightarrow> 'w"
  multiplication :: "'w \<Rightarrow> 'w \<Rightarrow> pyerr + 'w"
  zero :: 'w
  one :: 'w

definition uni_add :: "weight \<Rightarrow> weight \<Rightarrow> weight" where
  "uni_add x y = PySet (foldl set_add (members x) (members y))"

definition uni_mult :: "weight \<Rightarrow> weight \<Rightarrow> pyerr + weight" where
  "uni_mult x y =
     (case x of
        FSSetObj s \<Rightarrow> Inr (FSSetObj (unify s (members y)))
      | PySet s \<Rightarrow>
          Inl (AttributeError (CHR 0x27 # ''set'' @ CHR 0x27 # '' object has no attribute '' @
                               CHR 0x27 # ''unify'' @ [CHR 0x27])))"

definition UNIFICATION_SR :: "weight semiring" where
  "UNIFICATION_SR =
     \<lparr>addition = uni_add, multiplication = uni_mult,
      zero = PySet [], one = FSSetObj TOPFSS\<rparr>"

section \<open>Strings and regular expressions of the Python library\<close>

text \<open>
  A string is a list of bytes. \<open>isspace\<close> is Python's test on the ASCII range, which
  \<open>str.strip\<close> and the class \<open>\s\<close> use (white space beyond ASCII is not modelled).
\<close>

definition isspace :: "char \<Rightarrow> bool" where
  "isspace c = (c = CHR '' '' \<or> (9 \<le> (of_char c :: nat) \<and> (of_char c :: nat) \<le> 13)
     \<or> (28 \<le> (of_char c :: nat) \<and> (of_char c :: nat) \<le> 31))"

definition lstrip :: "string \<Rightarrow> string" where
  "lstrip s = dropWhile isspace s"

definition rstrip :: "string \<Rightarrow> string" where
  "rstrip s = rev (dropWhile isspace (rev s))"

definition strip :: "string \<Rightarrow> string" where
  "strip s = rstrip (lstrip s)"

text \<open>\<open>s.split(c)\<close> for a separator of one character: never an empty list.\<close>

fun split :: "char \<Rightarrow> string \<Rightarrow> string list" where
  "split c [] = [[]]"
| "split c (x # xs) =
     (if x = c then [] # split c xs
      else (case split c xs of [] \<Rightarrow> [[x]] | w # ws \<Rightarrow> (x # w) # ws))"

fun starts_with :: "string \<Rightarrow> string \<Rightarrow> bool" where
  "starts_with s [] = True"
| "starts_with [] (p # ps) = False"
| "starts_with (c # cs) (p # ps) = (c = p \<and> starts_with cs ps)"

text \<open>\<open>sub in s\<close> for strings.\<close>

fun contains :: "string \<Rightarrow> string \<Rightarrow> bool" where
  "contains [] sub = (sub = [])"
| "contains (c # cs) sub = (starts_with (c # cs) sub \<or> contains cs sub)"

definition lower :: "string \<Rightarrow> string" where
  "lower s = map (\<lambda>c. if 65 \<le> (of_char c :: nat) \<and> (of_char c :: nat) \<le> 90
                        then char_of (of_char c + (32::nat)) else c) s"

text \<open>\<open>str(n)\<close> for a length \<open>n\<close>.\<close>

fun str_nat :: "nat \<Rightarrow> string" where
  "str_nat n =
     (if n < 10 then [char_of (48 + n)]
      else str_nat (n div 10) @ [char_of (48 + n mod 10)])"

declare str_nat.simps [simp del]

text \<open>
  \<open>int(s)\<close> for a string: white space around it is dropped, a sign may lead, and the
  digits may be separated by single underscores. \<open>None\<close> stands for the \<open>ValueError\<close>
  that \<open>int\<close> raises. (Digits beyond ASCII are not modelled.)
\<close>

definition isdigit :: "char \<Rightarrow> bool" where
  "isdigit c = (48 \<le> (of_char c :: nat) \<and> (of_char c :: nat) \<le> 57)"

fun digits_ok :: "string \<Rightarrow> bool" where
  "digits_ok [] = False"
| "digits_ok [c] = isdigit c"
| "digits_ok (c # d # cs) =
     (isdigit c \<and> (if d = CHR ''_'' then digits_ok cs else digits_ok (d # cs)))"

definition digits_value :: "string \<Rightarrow> int" where
  "digits_value s = foldl (\<lambda>n c. 10 * n + (int (of_char c) - 48)) 0 (filter isdigit s)"

definition py_int :: "string \<Rightarrow> int option" where
  "py_int s =
     (case strip s of
        [] \<Rightarrow> None
      | c # cs \<Rightarrow>
          if c = CHR ''-'' then (if digits_ok cs then Some (- digits_value cs) else None)
          else if c = CHR ''+'' then (if digits_ok cs then Some (digits_value cs) else None)
          else if digits_ok (c # cs) then Some (digits_value (c # cs)) else None)"

text \<open>
  \<open>repr(s)\<close> for a string, as \<open>%r\<close> formats it: quoted with \<open>'\<close>, or with \<open>"\<close> when the
  string has a \<open>'\<close> and no \<open>"\<close>; the quote and the backslash are escaped, tab, newline
  and return are written \<open>\t\<close>, \<open>\n\<close>, \<open>\r\<close>, any other control character of ASCII as
  \<open>\xhh\<close>. Bytes beyond ASCII are kept, as Python keeps printable characters.
\<close>

definition hexdigit :: "nat \<Rightarrow> char" where
  "hexdigit n = (if n < 10 then char_of (48 + n) else char_of (87 + n))"

definition repr_char :: "char \<Rightarrow> char \<Rightarrow> string" where
  "repr_char q c =
     (if c = q \<or> c = CHR 0x5C then [CHR 0x5C, c]
      else if c = CHR 0x09 then [CHR 0x5C, CHR ''t'']
      else if c = CHR 0x0A then [CHR 0x5C, CHR ''n'']
      else if c = CHR 0x0D then [CHR 0x5C, CHR ''r'']
      else if (of_char c :: nat) < 32 \<or> (of_char c :: nat) = 127
        then [CHR 0x5C, CHR ''x'', hexdigit ((of_char c :: nat) div 16),
              hexdigit ((of_char c :: nat) mod 16)]
      else [c])"

definition repr_str :: "string \<Rightarrow> string" where
  "repr_str s =
     (let q = (if CHR 0x27 \<in> set s \<and> CHR 0x22 \<notin> set s then CHR 0x22 else CHR 0x27)
      in [q] @ concat (map (repr_char q) s) @ [q])"

text \<open>\<open>os.path.join(directory, filename)\<close> on a POSIX system.\<close>

definition path_join :: "string \<Rightarrow> string \<Rightarrow> string" where
  "path_join d f =
     (if starts_with f ''/'' then f
      else if d = [] \<or> last d = CHR ''/'' then d @ f
      else d @ ''/'' @ f)"

subsection \<open>Regular expressions\<close>

text \<open>
  A pattern is the function from an input to all the ways the pattern matches a prefix
  of it, in the order in which Python's backtracking matcher tries them: each way is the
  list of the groups captured and the rest of the input. \<open>re.match\<close> takes the first.
  The patterns of this program repeat single character classes only: \<open>greedy\<close> is \<open>c*\<close>
  (\<open>c+\<close> with lower bound 1), longest repetition first; \<open>lazy\<close> is \<open>c*?\<close> and \<open>c+?\<close>,
  shortest first. The lines matched have no newline in them (the text is split at
  newlines), so \<open>.\<close> is any character and \<open>$\<close> is the end of the input.
\<close>

type_synonym rx = "string \<Rightarrow> (string list \<times> string) list"

definition lit :: "string \<Rightarrow> rx" where
  "lit p s = (if starts_with s p then [([], drop (length p) s)] else [])"

definition greedy :: "(char \<Rightarrow> bool) \<Rightarrow> nat \<Rightarrow> rx" where
  "greedy c lo s = map (\<lambda>n. ([], drop n s)) (rev [lo..<Suc (length (takeWhile c s))])"

definition lazy :: "(char \<Rightarrow> bool) \<Rightarrow> nat \<Rightarrow> rx" where
  "lazy c lo s = map (\<lambda>n. ([], drop n s)) [lo..<Suc (length (takeWhile c s))]"

definition eos :: rx where
  "eos s = (if s = [] then [([], [])] else [])"

definition group :: "rx \<Rightarrow> rx" where
  "group r s = map (\<lambda>m. (take (length s - length (snd m)) s # fst m, snd m)) (r s)"

definition seq :: "rx \<Rightarrow> rx \<Rightarrow> rx" where
  "seq r1 r2 s =
     concat (map (\<lambda>m1. map (\<lambda>m2. (fst m1 @ fst m2, snd m2)) (r2 (snd m1))) (r1 s))"

definition seqs :: "rx list \<Rightarrow> rx" where
  "seqs rs = foldr seq rs (\<lambda>s. [([], s)])"

definition re_match :: "rx \<Rightarrow> string \<Rightarrow> string list option" where
  "re_match r s = (case r s of [] \<Rightarrow> None | m # ms \<Rightarrow> Some (fst m))"

definition dot :: "char \<Rightarrow> bool" where
  "dot c = True"

definition nonspace :: "char \<Rightarrow> bool" where
  "nonspace c = (\<not> isspace c)"

section \<open>Cascades of transducers (l3/morpho/casc.py)\<close>

text \<open>
  The patterns of the cascade file, each with what \<open>re.match\<close> captures:
  \<^verbatim>\<open>SS_RE = (\S+)\s*=\s*\{(.*)\}\<close>, \<^verbatim>\<open>WEIGHTING_RE = weighting\s*=\s*(.*)\<close>,
  \<^verbatim>\<open>CASC_FST_RE = >(.*?)<\<close>, \<^verbatim>\<open>SUBCASC_RE = cascade\s*(\S+)\s*=\s*\{(.*)\}\<close>,
  \<^verbatim>\<open>CASC_LEX_RE = \+(.*?)\+\<close>.
\<close>

definition SS_RE :: rx where
  "SS_RE = seqs [group (greedy nonspace 1), greedy isspace 0, lit ''='', greedy isspace 0,
                 lit ''{'', group (greedy dot 0), lit ''}'']"

definition WEIGHTING_RE :: rx where
  "WEIGHTING_RE = seqs [lit ''weighting'', greedy isspace 0, lit ''='', greedy isspace 0,
                        group (greedy dot 0)]"

definition CASC_FST_RE :: rx where
  "CASC_FST_RE = seqs [lit ''>'', group (lazy dot 0), lit ''<'']"

definition SUBCASC_RE :: rx where
  "SUBCASC_RE = seqs [lit ''cascade'', greedy isspace 0, group (greedy nonspace 1),
                      greedy isspace 0, lit ''='', greedy isspace 0,
                      lit ''{'', group (greedy dot 0), lit ''}'']"

definition CASC_LEX_RE :: rx where
  "CASC_LEX_RE = seqs [lit ''+'', group (lazy dot 0), lit ''+'']"

text \<open>
  The cascade is a Python list with further fields; \<open>elems\<close> is the list itself. An
  element is a loaded transducer or, where loading was skipped, a string. The semiring of
  a cascade is one of three objects, named here by a tag.
\<close>

datatype sr_tag = Unification | Probability | Tropical

datatype 'f elem = Loaded 'f | Placeholder string

record 'e FSTCascade =
  elems :: "'e list"
  label :: string
  stringsets :: "(string \<times> string set) list"
  weighting :: sr_tag
  cascades :: "(string \<times> int list) list"

definition new_cascade :: "string \<Rightarrow> 'e FSTCascade" where
  "new_cascade l =
     \<lparr>elems = [], label = l, stringsets = [], weighting = Unification, cascades = []\<rparr>"

text \<open>Indexing and slicing of a Python list by integers, negative ones counting from the end.\<close>

definition py_index :: "'a list \<Rightarrow> int \<Rightarrow> 'a option" where
  "py_index xs i =
     (if 0 \<le> i \<and> i < int (length xs) then Some (xs ! nat i)
      else if i < 0 \<and> - int (length xs) \<le> i then Some (xs ! nat (int (length xs) + i))
      else None)"

definition clamp :: "nat \<Rightarrow> int \<Rightarrow> nat" where
  "clamp n i = (if i < 0 then nat (max (int n + i) 0) else min (nat i) n)"

definition py_slice :: "'a list \<Rightarrow> int \<Rightarrow> int \<Rightarrow> 'a list" where
  "py_slice xs b e =
     take (clamp (length xs) e - clamp (length xs) b) (drop (clamp (length xs) b) xs)"

text \<open>
  The arguments of \<open>compose\<close>. \<open>FST.compose\<close> belongs to \<open>fst.py\<close>, which is not among the
  sources: it is the parameter \<open>fst_compose\<close>, and so is the truth value \<open>truthy\<close> of a
  transducer object in \<open>if first:\<close> and \<open>if last:\<close>.
\<close>

record 'e compose_args =
  arg_begin :: int
  arg_end :: "int option"
  arg_first :: "'e option"
  arg_last :: "'e option"
  arg_subcasc :: "string option"
  arg_backwards :: bool
  arg_relabel :: bool
  arg_trace :: int

definition compose ::
  "('e list \<Rightarrow> string \<Rightarrow> bool \<Rightarrow> int \<Rightarrow> pyerr + 'e) \<Rightarrow> ('e \<Rightarrow> bool) \<Rightarrow>
   'e FSTCascade \<Rightarrow> 'e compose_args \<Rightarrow> pyerr + 'e" where
  "compose fst_compose truthy self a =
     (if length (elems self) = 1 then Inr (hd (elems self))
      else if arg_subcasc a \<noteq> None \<and> arg_subcasc a \<noteq> Some [] then
        (case map_of (cascades self) (the (arg_subcasc a)) of
           None \<Rightarrow>
             Inl (ValueError (repr_str (the (arg_subcasc a)) @
                              '' is not a valid subscascade label''))
         | Some ixs \<Rightarrow>
             (case those (map (py_index (elems self)) ixs) of
                None \<Rightarrow> Inl IndexError
              | Some fsts \<Rightarrow>
                  fst_compose fsts (label self @ ''@'') (arg_relabel a) (arg_trace a)))
      else
        (let fsts = py_slice (elems self) (arg_begin a)
                      (case arg_end a of None \<Rightarrow> int (length (elems self)) | Some e \<Rightarrow> e);
             fsts = (case arg_first a of
                       None \<Rightarrow> fsts
                     | Some f \<Rightarrow> if truthy f then [f] @ fsts else fsts);
             fsts = (case arg_last a of
                       None \<Rightarrow> fsts
                     | Some l \<Rightarrow> if truthy l then fsts @ [l] else fsts)
         in fst_compose fsts (label self @ ''@'') (arg_relabel a) (arg_trace a)))"

text \<open>\<open>set_weighting\<close> and \<open>add_stringset\<close>.\<close>

definition set_weighting :: "string \<Rightarrow> 'e FSTCascade \<Rightarrow> 'e FSTCascade" where
  "set_weighting l c =
     (if contains (lower l) ''uni'' then c\<lparr>weighting := Unification\<rparr>
      else if contains (lower l) ''prob'' then c\<lparr>weighting := Probability\<rparr>
      else if contains (lower l) ''trop'' then c\<lparr>weighting := Tropical\<rparr>
      else c)"

definition add_stringset :: "string \<Rightarrow> string list \<Rightarrow> 'e FSTCascade \<Rightarrow> 'e FSTCascade" where
  "add_stringset l xs c = c\<lparr>stringsets := AList.update l (set xs) (stringsets c)\<rparr>"

text \<open>
  \<open>[int(i.strip()) for i in indices.split(',')]\<close>: the first string that is no integer
  raises the \<open>ValueError\<close> of \<open>int\<close>.
\<close>

fun parse_indices :: "string list \<Rightarrow> pyerr + int list" where
  "parse_indices [] = Inr []"
| "parse_indices (i # is) =
     (case py_int (strip i) of
        None \<Rightarrow>
          Inl (ValueError (''invalid literal for int() with base 10: '' @ repr_str (strip i)))
      | Some n \<Rightarrow>
          (case parse_indices is of Inl e \<Rightarrow> Inl e | Inr ns \<Rightarrow> Inr (n # ns)))"

text \<open>
  Modelled from the spec: \<open>FST.load\<close> of \<open>fst.py\<close>, which is not among the sources. The
  spec says that a transducer is deserialized from a file found by its path, and that a
  missing file is an error of loading: \<open>load\<close> is a parameter that maps the path, the
  semiring of the cascade and the flag \<open>lex_features\<close> to a transducer or an exception.

  The state of the loop of \<open>FSTCascade.parse\<close>: the cascade built so far and
  \<open>subcasc_indices\<close>. \<open>parse_line\<close> is one turn of the loop.
\<close>

record 'f parse_state =
  cascade :: "'f elem FSTCascade"
  subcasc_indices :: "int list"

definition append_elem :: "'f elem \<Rightarrow> 'f parse_state \<Rightarrow> 'f parse_state" where
  "append_elem e st = st\<lparr>cascade := (cascade st)\<lparr>elems := elems (cascade st) @ [e]\<rparr>\<rparr>"

definition load_or_skip ::
  "(string \<Rightarrow> sr_tag \<Rightarrow> bool \<Rightarrow> pyerr + 'f) \<Rightarrow> string \<Rightarrow> bool \<Rightarrow>
   'f parse_state \<Rightarrow> pyerr + 'f parse_state" where
  "load_or_skip load path lex_features st =
     (if subcasc_indices st = [] \<or>
         int (length (elems (cascade st))) \<in> set (subcasc_indices st)
      then (case load path (weighting (cascade st)) lex_features of
              Inl e \<Rightarrow> Inl e
            | Inr f \<Rightarrow> Inr (append_elem (Loaded f) st))
      else Inr (append_elem
                  (Placeholder (''FST'' @ str_nat (length (elems (cascade st))))) st))"

definition clean :: "string \<Rightarrow> string" where
  "clean raw = strip (hd (split CHR ''#'' raw))"

definition parse_line ::
  "(string \<Rightarrow> sr_tag \<Rightarrow> bool \<Rightarrow> pyerr + 'f) \<Rightarrow> string \<Rightarrow> bool \<Rightarrow> string option \<Rightarrow>
   'f parse_state \<Rightarrow> string \<Rightarrow> pyerr + 'f parse_state" where
  "parse_line load directory create_networks subcasc st raw =
     (let line = clean raw in
      if line = [] then Inr st
      else case re_match WEIGHTING_RE line of
        Some m \<Rightarrow> Inr (st\<lparr>cascade := set_weighting (m ! 0) (cascade st)\<rparr>)
      | None \<Rightarrow>
      (case re_match SUBCASC_RE line of
        Some m \<Rightarrow>
          (case parse_indices (split CHR '','' (m ! 1)) of
             Inl e \<Rightarrow> Inl e
           | Inr indices \<Rightarrow>
               Inr (st\<lparr>cascade := (cascade st)
                          \<lparr>cascades := AList.update (m ! 0) indices (cascades (cascade st))\<rparr>,
                        subcasc_indices :=
                          (if Some (m ! 0) = subcasc then indices else subcasc_indices st)\<rparr>))
      | None \<Rightarrow>
      (case re_match SS_RE line of
        Some m \<Rightarrow>
          Inr (st\<lparr>cascade :=
                     add_stringset (m ! 0) (map strip (split CHR '','' (m ! 1))) (cascade st)\<rparr>)
      | None \<Rightarrow>
      (case re_match CASC_FST_RE line of
        Some m \<Rightarrow>
          if create_networks
          then load_or_skip load (path_join directory (m ! 0 @ ''.fst'')) False st
          else Inr st
      | None \<Rightarrow>
      (case re_match CASC_LEX_RE line of
        Some m \<Rightarrow>
          if create_networks
          then load_or_skip load (path_join directory (m ! 0 @ ''.lex'')) True st
          else Inr st
      | None \<Rightarrow> Inl (ValueError (''bad line: '' @ repr_str line)))))))"

fun parse_lines ::
  "(string \<Rightarrow> sr_tag \<Rightarrow> bool \<Rightarrow> pyerr + 'f) \<Rightarrow> string \<Rightarrow> bool \<Rightarrow> string option \<Rightarrow>
   'f parse_state \<Rightarrow> string list \<Rightarrow> pyerr + 'f parse_state" where
  "parse_lines load directory create_networks subcasc st [] = Inr st"
| "parse_lines load directory create_networks subcasc st (raw # lines) =
     (case parse_line load directory create_networks subcasc st raw of
        Inl e \<Rightarrow> Inl e
      | Inr st' \<Rightarrow> parse_lines load directory create_networks subcasc st' lines)"

definition parse ::
  "(string \<Rightarrow> sr_tag \<Rightarrow> bool \<Rightarrow> pyerr + 'f) \<Rightarrow> string \<Rightarrow> string \<Rightarrow> string \<Rightarrow> bool \<Rightarrow>
   string option \<Rightarrow> pyerr + 'f elem FSTCascade" where
  "parse load l s directory create_networks subcasc =
     (case parse_lines load directory create_networks subcasc
             \<lparr>cascade = new_cascade l, subcasc_indices = []\<rparr> (split CHR 0x0A s) of
        Inl e \<Rightarrow> Inl e
      | Inr st \<Rightarrow> Inr (cascade st))"

section \<open>Morphotactics (l3/morpho/mtax.py)\<close>

text \<open>
  The patterns of the morphotactic file:
  \<^verbatim>\<open>STATE_RE = \s*\$\s+(\S+)$\<close>, \<^verbatim>\<open>FS_RE = (\s*)(\[.+?\])$\<close>,
  \<^verbatim>\<open>PATH_RE = (\s*?)(\S+)\s+(\[.*?\])$\<close>, \<^verbatim>\<open>PATH_NO_FS_RE = (\s*?)(\S+)$\<close>,
  \<^verbatim>\<open>LEX_RE = (\s*?)\+(.*?)\+\s+(\[.*?\])$\<close>,
  \<^verbatim>\<open>SHORTCUT_FS_RE = \s*->\s*(\S+)\s*(\[.+?\])$\<close>,
  \<^verbatim>\<open>SHORTCUT_LEX_RE = \s*->\s*(\S+)\s*\+(.*?)\+$\<close>.
\<close>

definition STATE_RE :: rx where
  "STATE_RE = seqs [greedy isspace 0, lit ''$'', greedy isspace 1, group (greedy nonspace 1), eos]"

definition FS_RE :: rx where
  "FS_RE = seqs [group (greedy isspace 0), group (seqs [lit ''['', lazy dot 1, lit '']'']), eos]"

definition PATH_RE :: rx where
  "PATH_RE = seqs [group (lazy isspace 0), group (greedy nonspace 1), greedy isspace 1,
                   group (seqs [lit ''['', lazy dot 0, lit '']'']), eos]"

definition PATH_NO_FS_RE :: rx where
  "PATH_NO_FS_RE = seqs [group (lazy isspace 0), group (greedy nonspace 1), eos]"

definition LEX_RE :: rx where
  "LEX_RE = seqs [group (lazy isspace 0), lit ''+'', group (lazy dot 0), lit ''+'',
                  greedy isspace 1, group (seqs [lit ''['', lazy dot 0, lit '']'']), eos]"

definition SHORTCUT_FS_RE :: rx where
  "SHORTCUT_FS_RE = seqs [greedy isspace 0, lit ''->'', greedy isspace 0,
                          group (greedy nonspace 1), greedy isspace 0,
                          group (seqs [lit ''['', lazy dot 1, lit '']'']), eos]"

definition SHORTCUT_LEX_RE :: rx where
  "SHORTCUT_LEX_RE = seqs [greedy isspace 0, lit ''->'', greedy isspace 0,
                           group (greedy nonspace 1), greedy isspace 0,
                           lit ''+'', group (lazy dot 0), lit ''+'', eos]"

text \<open>
  A state of the file is \<open>[label, {'paths': [...], 'shortcuts': [...]}]\<close>. The weight
  of a path is an \<open>FSSet\<close> or the empty string.
\<close>

datatype 'w pweight = NoWeight | Weight 'w

record 'w mstate =
  slabel :: string
  paths :: "(string \<times> 'w pweight) list"
  shortcuts :: "(string \<times> string) list"

text \<open>
  What \<open>MTax.parse\<close> works on: the transducer \<open>self.fst\<close>, the list \<open>self.states\<close>, and the
  local variables of the method. \<open>current_state\<close> is \<open>None\<close> or the state last appended to
  \<open>self.states\<close>, the very same object: \<open>has_current\<close> says which, and a change of
  \<open>current_state\<close> is a change of the last state of the list.
\<close>

record ('f, 'w, 'v) mtax =
  mfst :: 'f
  states :: "'w mstate list"
  has_current :: bool
  current_fs :: "'v option"
  pending_line :: string
  current_indent :: nat

text \<open>
  What \<open>MTax.parse\<close> calls and this model does not look into: the methods \<open>add_state\<close> and
  \<open>_set_initial_state\<close> of the transducer (\<open>fst.py\<close> is not among the sources),
  \<open>self.weighting.parse\<close>, \<open>FeatStructParser().parse\<close>, \<open>weight.update(weight, current_fs)\<close>,
  \<open>FSSet(current_fs)\<close>, and the truth value of a feature structure in \<open>and current_fs\<close>.
  Each may raise.
\<close>

record ('f, 'w, 'v) mtax_env =
  add_state :: "string \<Rightarrow> 'f \<Rightarrow> pyerr + 'f"
  set_initial_state :: "string \<Rightarrow> 'f \<Rightarrow> pyerr + 'f"
  weighting_parse :: "string \<Rightarrow> pyerr + 'w"
  fs_parse :: "string \<Rightarrow> pyerr + 'v"
  fss_update :: "'w \<Rightarrow> 'v \<Rightarrow> pyerr + 'w"
  fss_of :: "'v \<Rightarrow> pyerr + 'w"
  fs_truthy :: "'v \<Rightarrow> bool"

definition bind :: "pyerr + 'a \<Rightarrow> ('a \<Rightarrow> pyerr + 'b) \<Rightarrow> pyerr + 'b" where
  "bind r k = (case r of Inl e \<Rightarrow> Inl e | Inr x \<Rightarrow> k x)"

text \<open>\<open>current_state[1]['paths'].append(p)\<close> and the same for \<open>'shortcuts'\<close>.\<close>

definition add_path ::
  "string \<times> 'w pweight \<Rightarrow> ('f, 'w, 'v) mtax \<Rightarrow> pyerr + ('f, 'w, 'v) mtax" where
  "add_path p st =
     (if \<not> has_current st \<or> states st = []
      then Inl (TypeError (CHR 0x27 # ''NoneType'' @ CHR 0x27 # '' object is not subscriptable''))
      else Inr (st\<lparr>states := butlast (states st) @
                  [(last (states st))\<lparr>paths := paths (last (states st)) @ [p]\<rparr>]\<rparr>))"

definition add_shortcut ::
  "string \<times> string \<Rightarrow> ('f, 'w, 'v) mtax \<Rightarrow> pyerr + ('f, 'w, 'v) mtax" where
  "add_shortcut p st =
     (if \<not> has_current st \<or> states st = []
      then Inl (TypeError (CHR 0x27 # ''NoneType'' @ CHR 0x27 # '' object is not subscriptable''))
      else Inr (st\<lparr>states := butlast (states st) @
                  [(last (states st))\<lparr>shortcuts := shortcuts (last (states st)) @ [p]\<rparr>]\<rparr>))"

text \<open>\<open>if len(indentation) > current_indent and current_fs: weight = ...\<close>\<close>

definition with_current_fs ::
  "('f, 'w, 'v) mtax_env \<Rightarrow> ('f, 'w, 'v) mtax \<Rightarrow> string \<Rightarrow> 'w \<Rightarrow> pyerr + 'w" where
  "with_current_fs env st indentation weight =
     (case current_fs st of
        None \<Rightarrow> Inr weight
      | Some fs \<Rightarrow>
          if length indentation > current_indent st \<and> fs_truthy env fs
          then fss_update env weight fs else Inr weight)"

definition mtax_match ::
  "('f, 'w, 'v) mtax_env \<Rightarrow> ('f, 'w, 'v) mtax \<Rightarrow> string \<Rightarrow> pyerr + ('f, 'w, 'v) mtax" where
  "mtax_match env st line =
     (case re_match STATE_RE line of
        Some m \<Rightarrow>
          bind (add_state env (m ! 0) (mfst st)) (\<lambda>f.
          bind (if \<not> has_current st then set_initial_state env (m ! 0) f else Inr f) (\<lambda>f.
          Inr (st\<lparr>mfst := f,
                   states := states st @ [\<lparr>slabel = m ! 0, paths = [], shortcuts = []\<rparr>],
                   has_current := True, current_fs := None, current_indent := 0\<rparr>)))
      | None \<Rightarrow>
      (case re_match LEX_RE line of
        Some m \<Rightarrow>
          bind (weighting_parse env (m ! 2)) (\<lambda>weight.
          bind (with_current_fs env st (m ! 0) weight) (\<lambda>weight.
          add_path (m ! 1 @ ''.lex'', Weight weight) st))
      | None \<Rightarrow>
      (case re_match FS_RE line of
        Some m \<Rightarrow>
          bind (fs_parse env (m ! 1)) (\<lambda>weight.
          Inr (st\<lparr>current_fs := Some weight, current_indent := length (m ! 0)\<rparr>))
      | None \<Rightarrow>
      (case re_match PATH_RE line of
        Some m \<Rightarrow>
          bind (weighting_parse env (m ! 2)) (\<lambda>weight.
          bind (with_current_fs env st (m ! 0) weight) (\<lambda>weight.
          add_path (m ! 1, Weight weight) st))
      | None \<Rightarrow>
      (case re_match SHORTCUT_FS_RE line of
        Some m \<Rightarrow> add_shortcut (m ! 0, m ! 1) st
      | None \<Rightarrow>
      (case re_match SHORTCUT_LEX_RE line of
        Some m \<Rightarrow> add_shortcut (m ! 0, m ! 1 @ ''.lex'') st
      | None \<Rightarrow>
      (case re_match PATH_NO_FS_RE line of
        Some m \<Rightarrow>
          bind (case current_fs st of
                  None \<Rightarrow> Inr NoWeight
                | Some fs \<Rightarrow>
                    if length (m ! 0) > current_indent st \<and> fs_truthy env fs
                    then bind (fss_of env fs) (\<lambda>w. Inr (Weight w)) else Inr NoWeight) (\<lambda>weight.
          add_path (m ! 1, weight) st)
      | None \<Rightarrow> Inl (ValueError (''bad line: '' @ repr_str line)))))))))"

definition mtax_clean :: "string \<Rightarrow> string" where
  "mtax_clean raw = rstrip (hd (split CHR ''#'' raw))"

definition mtax_line ::
  "('f, 'w, 'v) mtax_env \<Rightarrow> ('f, 'w, 'v) mtax \<Rightarrow> string \<Rightarrow> pyerr + ('f, 'w, 'v) mtax" where
  "mtax_line env st raw =
     (let line = mtax_clean raw in
      if line = [] then Inr st
      else if last line = CHR '';'' then Inr (st\<lparr>pending_line := pending_line st @ line\<rparr>)
      else if pending_line st \<noteq> []
        then mtax_match env (st\<lparr>pending_line := []\<rparr>) (pending_line st @ line)
      else mtax_match env st line)"

fun mtax_lines ::
  "('f, 'w, 'v) mtax_env \<Rightarrow> ('f, 'w, 'v) mtax \<Rightarrow> string list \<Rightarrow> pyerr + ('f, 'w, 'v) mtax" where
  "mtax_lines env st [] = Inr st"
| "mtax_lines env st (raw # lines) =
     (case mtax_line env st raw of
        Inl e \<Rightarrow> Inl e
      | Inr st' \<Rightarrow> mtax_lines env st' lines)"

text \<open>
  \<open>MTax.parse(label, s)\<close> on an \<open>MTax\<close> object with the transducer \<open>f\<close> and the states \<open>ss\<close>.
\<close>

definition mtax_parse ::
  "('f, 'w, 'v) mtax_env \<Rightarrow> 'f \<Rightarrow> 'w mstate list \<Rightarrow> string \<Rightarrow> pyerr + ('f, 'w, 'v) mtax" where
  "mtax_parse env f ss s =
     mtax_lines env
       \<lparr>mfst = f, states = ss, has_current = False, current_fs = None,
        pending_line = [], current_indent = 0\<rparr>
       (split CHR 0x0A s)"

section \<open>Lines that no pattern matches\<close>




text \<open>
  The state of \<open>FSTCascade.parse\<close> after the subcascade \<open>s\<close> asked for has been declared:
  \<open>subcasc_indices\<close> is the list stored for \<open>s\<close> in \<open>_cascades\<close>, and it is not empty.
\<close>

definition tracks :: "string \<Rightarrow> 'f parse_state \<Rightarrow> bool" where
  "tracks s st =
     (subcasc_indices st \<noteq> [] \<and>
      map_of (cascades (cascade st)) s = Some (subcasc_indices st))"

section \<open>Python equality is an equivalence\<close>

text \<open>
  On well-formed values \<open>==\<close> is reflexive, symmetric and transitive. For structures
  with distinct names it says: the same type sets, the same names, equal values.
\<close>

lemma equal_values_unfold:
  "equal_values a b =
     (list_all (\<lambda>t. list_ex (\<lambda>s. equal_values t s) (types b)) (types a) \<and>
      list_all (\<lambda>s. list_ex (\<lambda>t. equal_values t s) (types a)) (types b) \<and>
      length (features a) = length (features b) \<and>
      set (map fst (features a)) = set (map fst (features b)) \<and>
      list_all (\<lambda>p. case map_of (features b) (fst p) of
                       None \<Rightarrow> False
                     | Some w \<Rightarrow> py_eq (snd p) w) (features a))"
  by (cases a) simp

lemma wf_lookup: "wf_fs a \<Longrightarrow> map_of (features a) k = Some v \<Longrightarrow> wf_val v"
  by (cases a) (auto simp: list_all_iff dest!: map_of_SomeD)

lemma same_keys_length:
  assumes "distinct (map fst xs)" "distinct (map fst ys)" "set (map fst xs) = set (map fst ys)"
  shows "length xs = length ys"
proof -
  have "length (map fst xs) = length (map fst ys)"
    using assms distinct_card [of "map fst xs"] distinct_card [of "map fst ys"] by simp
  then show ?thesis by simp
qed

lemma values_match_iff:
  assumes "distinct (map fst xs)" "set (map fst xs) = set (map fst ys)"
  shows "list_all (\<lambda>p. case map_of ys (fst p) of None \<Rightarrow> False | Some w \<Rightarrow> P (snd p) w) xs \<longleftrightarrow>
     (\<forall>k v w. map_of xs k = Some v \<longrightarrow> map_of ys k = Some w \<longrightarrow> P v w)"
proof
  assume L: "list_all (\<lambda>p. case map_of ys (fst p) of None \<Rightarrow> False | Some w \<Rightarrow> P (snd p) w) xs"
  show "\<forall>k v w. map_of xs k = Some v \<longrightarrow> map_of ys k = Some w \<longrightarrow> P v w"
  proof (intro allI impI)
    fix k v w assume a: "map_of xs k = Some v" "map_of ys k = Some w"
    then have "(k, v) \<in> set xs" by (simp add: map_of_SomeD)
    with L have "case map_of ys (fst (k, v)) of None \<Rightarrow> False | Some w \<Rightarrow> P (snd (k, v)) w"
      unfolding list_all_iff by blast
    with a show "P v w" by simp
  qed
next
  assume R: "\<forall>k v w. map_of xs k = Some v \<longrightarrow> map_of ys k = Some w \<longrightarrow> P v w"
  show "list_all (\<lambda>p. case map_of ys (fst p) of None \<Rightarrow> False | Some w \<Rightarrow> P (snd p) w) xs"
    unfolding list_all_iff
  proof
    fix p assume p: "p \<in> set xs"
    then have x: "map_of xs (fst p) = Some (snd p)"
      using map_of_eq_Some_iff [OF assms(1), of "fst p" "snd p"] by simp
    from p have "fst p \<in> set (map fst ys)" using assms(2) by force
    then have "fst p \<in> dom (map_of ys)" by (simp add: dom_map_of_conv_image_fst)
    then obtain w where w: "map_of ys (fst p) = Some w" by blast
    with x R have "P (snd p) w" by blast
    with w show "case map_of ys (fst p) of None \<Rightarrow> False | Some w \<Rightarrow> P (snd p) w" by simp
  qed
qed

lemma equal_values_iff:
  assumes da: "distinct (map fst (features a))" and db: "distinct (map fst (features b))"
  shows "equal_values a b \<longleftrightarrow>
     (\<forall>t\<in>set (types a). \<exists>s\<in>set (types b). equal_values t s) \<and>
     (\<forall>s\<in>set (types b). \<exists>t\<in>set (types a). equal_values t s) \<and>
     dom (map_of (features a)) = dom (map_of (features b)) \<and>
     (\<forall>k v w. map_of (features a) k = Some v \<longrightarrow> map_of (features b) k = Some w \<longrightarrow> py_eq v w)"
  (is "?L \<longleftrightarrow> ?T1 \<and> ?T2 \<and> ?D \<and> ?V")
proof -
  have keys: "set (map fst (features a)) = set (map fst (features b)) \<longleftrightarrow> ?D"
    by (simp add: dom_map_of_conv_image_fst)
  have U: "?L \<longleftrightarrow> ?T1 \<and> ?T2 \<and> length (features a) = length (features b) \<and>
      set (map fst (features a)) = set (map fst (features b)) \<and>
      list_all (\<lambda>p. case map_of (features b) (fst p) of
                       None \<Rightarrow> False
                     | Some w \<Rightarrow> py_eq (snd p) w) (features a)"
    by (subst equal_values_unfold) (simp only: list_all_iff list_ex_iff)
  show ?thesis
  proof (cases "set (map fst (features a)) = set (map fst (features b))")
    case True
    from True keys have D: ?D by blast
    show ?thesis
      unfolding U values_match_iff [OF da True] using True D same_keys_length [OF da db True]
      by blast
  next
    case False
    with keys have "\<not> ?D" by blast
    with False show ?thesis unfolding U by blast
  qed
qed

lemma wf_distinct: "wf_fs a \<Longrightarrow> distinct (map fst (features a))"
  by (cases a) simp

lemma wf_types: "wf_fs a \<Longrightarrow> t \<in> set (types a) \<Longrightarrow> wf_fs t"
  by (cases a) (simp add: list_all_iff)

lemma py_eq_VFS: "py_eq (VFS a) y \<longleftrightarrow> (\<exists>b. y = VFS b \<and> equal_values a b)"
  by (cases y) auto

lemma py_eq_VFS2: "py_eq x (VFS b) \<longleftrightarrow> (\<exists>a. x = VFS a \<and> equal_values a b)"
  by (cases x) auto

lemma py_eq_refl: "wf_val v \<Longrightarrow> py_eq v v" and equal_values_refl: "wf_fs f \<Longrightarrow> equal_values f f"
proof (induction v and f)
  case (FeatStruct fx tx z)
  let ?f = "FeatStruct fx tx z"
  have d: "distinct (map fst (features ?f))" using FeatStruct.prems by simp
  have "\<forall>t\<in>set tx. equal_values t t"
    using FeatStruct.IH(2) FeatStruct.prems by (auto simp: list_all_iff)
  moreover have "py_eq v v" if "map_of fx k = Some v" for k v
  proof -
    from that have "(k, v) \<in> set fx" by (rule map_of_SomeD)
    then show ?thesis using FeatStruct.IH(1) [of "(k, v)" v] FeatStruct.prems
      by (auto simp: list_all_iff)
  qed
  ultimately show ?case
    unfolding equal_values_iff [OF d d] by auto
qed auto

lemma py_eq_sym: "py_eq v w \<Longrightarrow> wf_val v \<Longrightarrow> wf_val w \<Longrightarrow> py_eq w v"
  and equal_values_sym: "equal_values f g \<Longrightarrow> wf_fs f \<Longrightarrow> wf_fs g \<Longrightarrow> equal_values g f"
proof (induction v and f arbitrary: w and g)
  case (FeatStruct fx tx z)
  let ?f = "FeatStruct fx tx z"
  have d: "distinct (map fst (features ?f))" "distinct (map fst (features g))"
    using FeatStruct.prems by (simp_all add: wf_distinct)
  note E = FeatStruct.prems(1) [unfolded equal_values_iff [OF d]]
  have ty: "equal_values s t" if "t \<in> set tx" "s \<in> set (types g)" "equal_values t s" for s t
    using FeatStruct.IH(2) [OF that(1) that(3)] that FeatStruct.prems wf_types by auto
  have va: "py_eq w v" if "map_of (features g) k = Some w" "map_of fx k = Some v" for k v w
  proof -
    from that have "(k, v) \<in> set fx" by (simp add: map_of_SomeD)
    moreover have "py_eq v w" using E that by auto
    moreover have "wf_val v" "wf_val w"
      using that FeatStruct.prems wf_lookup [of ?f k v] wf_lookup [of g k w] by auto
    ultimately show ?thesis using FeatStruct.IH(1) [of "(k, v)" v w] by auto
  qed
  show ?case
    unfolding equal_values_iff [OF d(2) d(1)]
    using E ty va by (auto; metis)
qed (auto split: val.splits)

lemma py_eq_trans: "py_eq u v \<Longrightarrow> py_eq v w \<Longrightarrow> wf_val u \<Longrightarrow> wf_val v \<Longrightarrow> wf_val w \<Longrightarrow> py_eq u w"
  and equal_values_trans:
    "equal_values f g \<Longrightarrow> equal_values g h \<Longrightarrow> wf_fs f \<Longrightarrow> wf_fs g \<Longrightarrow> wf_fs h \<Longrightarrow> equal_values f h"
proof (induction u and f arbitrary: v w and g h)
  case (FeatStruct fx tx z)
  let ?f = "FeatStruct fx tx z"
  have d: "distinct (map fst (features ?f))" "distinct (map fst (features g))"
     "distinct (map fst (features h))"
    using FeatStruct.prems by (simp_all add: wf_distinct)
  note E1 = FeatStruct.prems(1) [unfolded equal_values_iff [OF d(1) d(2)]]
  note E2 = FeatStruct.prems(2) [unfolded equal_values_iff [OF d(2) d(3)]]
  have ty: "equal_values t r"
    if "t \<in> set tx" "s \<in> set (types g)" "r \<in> set (types h)" "equal_values t s" "equal_values s r"
    for t s r
    using FeatStruct.IH(2) [OF that(1) that(4) that(5)] that FeatStruct.prems wf_types by auto
  have va: "py_eq u w" if "map_of fx k = Some u" "map_of (features h) k = Some w" for k u w
  proof -
    from that have in_fx: "(k, u) \<in> set fx" by (simp add: map_of_SomeD)
    have "k \<in> dom (map_of (features g))" using E1 that by auto
    then obtain v where v: "map_of (features g) k = Some v" by auto
    have "py_eq u v" "py_eq v w" using E1 E2 that v by auto
    moreover have "wf_val u" "wf_val v" "wf_val w"
      using that v FeatStruct.prems wf_lookup [of ?f k u] wf_lookup [of g k v] wf_lookup [of h k w]
      by auto
    ultimately show ?thesis using FeatStruct.IH(1) [of "(k, u)" u v w] in_fx by auto
  qed
  have t1: "\<forall>t\<in>set (types ?f). \<exists>r\<in>set (types h). equal_values t r"
    using E1 E2 ty by (simp; meson)
  have t2: "\<forall>r\<in>set (types h). \<exists>t\<in>set (types ?f). equal_values t r"
    using E1 E2 ty by (simp; meson)
  show ?case
    unfolding equal_values_iff [OF d(1) d(3)]
    using E1 E2 t1 t2 va by auto
qed (auto split: val.splits if_splits simp: py_eq_VFS)

text \<open>Changing the values of a dictionary into equal ones gives an equal structure.\<close>

lemma map_of_map_values:
  "map_of (map (\<lambda>p. (fst p, g (snd p))) fx) k = map_option g (map_of fx k)"
  by (induction fx) auto

lemma equal_values_mapped:
  assumes d: "distinct (map fst fx)"
    and t: "\<And>t. t \<in> set tx \<Longrightarrow> equal_values t t"
    and v: "\<And>k v. map_of fx k = Some v \<Longrightarrow> py_eq v (g v) \<and> py_eq (g v) v"
  shows "equal_values (FeatStruct fx tx z) (FeatStruct (map (\<lambda>p. (fst p, g (snd p))) fx) tx z')"
    and "equal_values (FeatStruct (map (\<lambda>p. (fst p, g (snd p))) fx) tx z') (FeatStruct fx tx z)"
proof -
  let ?a = "FeatStruct fx tx z" and ?b = "FeatStruct (map (\<lambda>p. (fst p, g (snd p))) fx) tx z'"
  have da: "distinct (map fst (features ?a))" using d by simp
  have db: "distinct (map fst (features ?b))" using d by (simp add: comp_def)
  have dom: "dom (map_of (features ?a)) = dom (map_of (features ?b))"
    by (auto simp: map_of_map_values)
  show "equal_values ?a ?b"
    unfolding equal_values_iff [OF da db] using t v dom
    by (auto simp: map_of_map_values)
  show "equal_values ?b ?a"
    unfolding equal_values_iff [OF db da] using t v dom
    by (auto simp: map_of_map_values)
qed

section \<open>Properties of the unification semiring\<close>

lemma TOP_eq: "TOP = FeatStruct [] [] True"
  by (simp add: TOP_def freeze_def)

lemma TOPFSS_eq: "TOPFSS = [FeatStruct [] [] True]"
  by (simp add: TOPFSS_def FSSet_def set_add_def TOP_eq freeze_def)

text \<open>
  C10. For every \<open>FSSet\<close> \<open>y\<close>, the empty set unified with \<open>y\<close> by \<open>FSSet.unify\<close> is
  \<open>TOPFSS\<close>, the one of the unification semiring, and not the empty set: the list of
  pairwise results is empty, so the test that every result is \<open>TOP\<close> holds. The empty
  set is the zero of the semiring, which therefore does not absorb under \<open>FSSet.unify\<close>.
\<close>

theorem unify_empty_is_TOPFSS:
  "unify [] y = TOPFSS \<and> members (zero UNIFICATION_SR) = [] \<and>
   members (one UNIFICATION_SR) = TOPFSS
   \<and> unify (members (zero UNIFICATION_SR)) y = members (one UNIFICATION_SR)
   \<and> members (one UNIFICATION_SR) \<noteq> members (zero UNIFICATION_SR)"
  by (simp add: unify_def result1_def every_def UNIFICATION_SR_def TOPFSS_eq members_def)

theorem unify_empty_is_TOPFSS_witness:
  "unify [] [FeatStruct [(''a'', VInt 1)] [] True] = [FeatStruct [] [] True]"
  using unify_empty_is_TOPFSS [of "[FeatStruct [(''a'', VInt 1)] [] True]"]
  by (simp add: TOPFSS_eq)

section \<open>Simple unification\<close>

text \<open>
  The loop of \<open>unify_dicts\<close>, name by name: it fails at the first name on which the
  operands clash, and otherwise stores the merged value of every name that has one.
\<close>

lemma py_eq_VStr: "py_eq u (VStr s) \<longleftrightarrow> u = VStr s"
  by (cases u) auto

lemma put_fields:
  "map_of (features (put k v r)) = (map_of (features r))(k \<mapsto> v)"
  "types (put k v r) = types r" "frozen (put k v r) = frozen r"
  "distinct (map fst (features r)) \<Longrightarrow> distinct (map fst (features (put k v r)))"
  by (simp_all add: put_def update_conv' distinct_update)

lemma unify_loop_Cons:
  "unify_loop (k # ks) x y r =
     (if clash x y k then VStr ''fail''
      else unify_loop ks x y (case merged x y k of None \<Rightarrow> r | Some u \<Rightarrow> put k u r))"
  by (simp add: Let_def has_value_def clash_def merged_def py_eq_VStr)

lemma unify_loop_fail:
  "unify_loop ks x y r = VStr ''fail'' \<longleftrightarrow> (\<exists>k\<in>set ks. clash x y k)"
  by (induction ks arbitrary: r) (simp_all add: unify_loop_Cons del: unify_loop.simps(2))

lemma unify_loop_ok:
  "\<not> (\<exists>k\<in>set ks. clash x y k) \<Longrightarrow>
   \<exists>r'. unify_loop ks x y r = VFS r' \<and> types r' = types r \<and> frozen r' = frozen r \<and>
     (distinct (map fst (features r)) \<longrightarrow> distinct (map fst (features r'))) \<and>
     (\<forall>k. map_of (features r') k =
        (if k \<in> set ks
         then (case merged x y k of None \<Rightarrow> map_of (features r) k | Some u \<Rightarrow> Some u)
         else map_of (features r) k))"
proof (induction ks arbitrary: r)
  case Nil
  then show ?case by simp
next
  case (Cons a ks)
  let ?r = "case merged x y a of None \<Rightarrow> r | Some u \<Rightarrow> put a u r"
  from Cons.prems have nc: "\<not> clash x y a" "\<not> (\<exists>k\<in>set ks. clash x y k)" by auto
  from Cons.IH [OF nc(2), of ?r] obtain r' where
    r': "unify_loop ks x y ?r = VFS r'" "types r' = types ?r" "frozen r' = frozen ?r"
      "distinct (map fst (features ?r)) \<longrightarrow> distinct (map fst (features r'))"
      "\<forall>k. map_of (features r') k =
        (if k \<in> set ks
         then (case merged x y k of None \<Rightarrow> map_of (features ?r) k | Some u \<Rightarrow> Some u)
         else map_of (features ?r) k)"
    by blast
  have 1: "unify_loop (a # ks) x y r = VFS r'"
    using nc(1) r'(1) by (simp add: unify_loop_Cons del: unify_loop.simps(2))
  have 2: "types r' = types r" "frozen r' = frozen r"
    using r'(2,3) by (auto simp: put_fields split: option.splits)
  have 3: "distinct (map fst (features r)) \<longrightarrow> distinct (map fst (features r'))"
    using r'(4) by (auto simp: put_fields split: option.splits)
  have 4: "map_of (features r') k =
        (if k \<in> set (a # ks)
         then (case merged x y k of None \<Rightarrow> map_of (features r) k | Some u \<Rightarrow> Some u)
         else map_of (features r) k)" for k
    using r'(5) [rule_format, of k] by (auto simp: put_fields split: option.splits)
  show ?case using 1 2 3 4 by blast
qed

lemma get_outside: "k \<notin> fst ` set (features x) \<Longrightarrow> get x k d = d"
proof -
  assume "k \<notin> fst ` set (features x)"
  then have "map_of (features x) k = None" by (simp add: map_of_eq_None_iff)
  then show ?thesis by (simp add: get_def)
qed

lemma has_value_key: "has_value x k \<Longrightarrow> k \<in> fst ` set (features x)"
  using get_outside [of k x "VStr ''nil''"] by (auto simp: has_value_def)

lemma merged_outside:
  "k \<notin> fst ` set (features x) \<Longrightarrow> k \<notin> fst ` set (features y) \<Longrightarrow> merged x y k = None"
  using has_value_key by (auto simp: merged_def)

lemma unify_dicts_fail: "unify_dicts x y = VStr ''fail'' \<longleftrightarrow> (\<exists>k. clash x y k)"
proof -
  have "clash x y k \<Longrightarrow> k \<in> set (remdups (map fst (features x) @ map fst (features y)))" for k
    using has_value_key [of x k] by (auto simp: clash_def)
  then show ?thesis
    unfolding unify_dicts.simps unify_loop_fail by blast
qed

lemma unify_dicts_ok:
  assumes "\<not> (\<exists>k. clash x y k)"
  shows "\<exists>r. unify_dicts x y = VFS r \<and> types r = [] \<and> \<not> frozen r \<and>
     distinct (map fst (features r)) \<and> (\<forall>k. map_of (features r) k = merged x y k)"
proof -
  let ?ks = "remdups (map fst (features x) @ map fst (features y))"
  from assms have "\<not> (\<exists>k\<in>set ?ks. clash x y k)" by blast
  from unify_loop_ok [OF this, of "FeatStruct [] [] False"] obtain r where
    r: "unify_loop ?ks x y (FeatStruct [] [] False) = VFS r" "types r = []" "\<not> frozen r"
      "distinct (map fst (features r))"
      "\<forall>k. map_of (features r) k =
        (if k \<in> set ?ks
         then (case merged x y k of
                 None \<Rightarrow> map_of (features (FeatStruct [] [] False)) k
               | Some u \<Rightarrow> Some u)
         else map_of (features (FeatStruct [] [] False)) k)"
    by fastforce
  have "map_of (features r) k = merged x y k" for k
    using r(5) [rule_format, of k] merged_outside [of k x y]
    by (auto split: option.splits)
  with r show ?thesis unfolding unify_dicts.simps by blast
qed

text \<open>Unification of the values of a name in one order and in the other.\<close>

lemma has_value_lookup: "has_value x k \<Longrightarrow> map_of (features x) k = Some (get x k (VStr ''nil''))"
  by (auto simp: has_value_def get_def split: option.splits)

lemma simple_unify_not_FS:
  "\<not> py_eq a b \<Longrightarrow> (\<nexists>x. a = VFS x) \<or> (\<nexists>y. b = VFS y) \<Longrightarrow> simple_unify a b = VStr ''fail''"
  by (cases a; cases b) (simp_all add: simple_unify.simps)

lemma simple_unify_FS:
  "\<not> py_eq (VFS x) (VFS y) \<Longrightarrow> simple_unify (VFS x) (VFS y) = unify_dicts x y"
  by (simp add: simple_unify.simps)

lemma unify_dicts_comm:
  assumes wf: "wf_fs x" "wf_fs y"
    and IH: "\<And>k v w. map_of (features x) k = Some v \<Longrightarrow> wf_val w \<Longrightarrow>
                py_eq (simple_unify v w) (simple_unify w v)"
  shows "py_eq (unify_dicts x y) (unify_dicts y x)"
proof -
  have both: "py_eq (simple_unify (get x k (VStr ''nil'')) (get y k (VStr ''nil'')))
                    (simple_unify (get y k (VStr ''nil'')) (get x k (VStr ''nil'')))"
    if "has_value x k" "has_value y k" for k
    using IH [OF has_value_lookup [OF that(1)]] wf_lookup [OF wf(2) has_value_lookup [OF that(2)]]
    by blast
  have cl: "clash x y k \<longleftrightarrow> clash y x k" for k
  proof (cases "has_value x k \<and> has_value y k")
    case True
    with both [of k] show ?thesis
      by (auto simp: clash_def py_eq_VStr)
  next
    case False
    then show ?thesis by (auto simp: clash_def)
  qed
  show ?thesis
  proof (cases "\<exists>k. clash x y k")
    case True
    then have "unify_dicts x y = VStr ''fail''" "unify_dicts y x = VStr ''fail''"
      using cl by (simp_all add: unify_dicts_fail)
    then show ?thesis by simp
  next
    case False
    then have F2: "\<not> (\<exists>k. clash y x k)" using cl by simp
    from unify_dicts_ok [OF False] obtain r where
      r: "unify_dicts x y = VFS r" "types r = []" "distinct (map fst (features r))"
        "\<forall>k. map_of (features r) k = merged x y k" by blast
    from unify_dicts_ok [OF F2] obtain r' where
      r': "unify_dicts y x = VFS r'" "types r' = []" "distinct (map fst (features r'))"
        "\<forall>k. map_of (features r') k = merged y x k" by blast
    have dom: "dom (map_of (features r)) = dom (map_of (features r'))"
      using r(4) r'(4) by (auto simp: merged_def dom_def split: if_splits)
    have vals: "py_eq v w" if "map_of (features r) k = Some v" "map_of (features r') k = Some w" for k v w
    proof -
      from that r(4) r'(4) have m: "merged x y k = Some v" "merged y x k = Some w" by simp_all
      show ?thesis
      proof (cases "has_value x k")
        case hx: True
        show ?thesis
        proof (cases "has_value y k")
          case True
          with hx m both [of k] show ?thesis by (simp add: merged_def)
        next
          case False
          with hx m have "v = get x k (VStr ''nil'')" "w = v" by (auto simp: merged_def)
          moreover have "wf_val (get x k (VStr ''nil''))"
            using wf_lookup [OF wf(1) has_value_lookup [OF hx]] .
          ultimately show ?thesis using py_eq_refl by simp
        qed
      next
        case hx: False
        show ?thesis
        proof (cases "has_value y k")
          case True
          with hx m have "v = get y k (VStr ''nil'')" "w = v" by (auto simp: merged_def)
          moreover have "wf_val (get y k (VStr ''nil''))"
            using wf_lookup [OF wf(2) has_value_lookup [OF True]] .
          ultimately show ?thesis using py_eq_refl by simp
        next
          case False
          with hx m show ?thesis by (simp add: merged_def)
        qed
      qed
    qed
    have "equal_values r r'"
      unfolding equal_values_iff [OF r(3) r'(3)] using r(2) r'(2) dom vals by auto
    with r(1) r'(1) show ?thesis by simp
  qed
qed

lemma simple_unify_comm:
  "wf_val a \<Longrightarrow> wf_val b \<Longrightarrow> py_eq (simple_unify a b) (simple_unify b a)"
  and "wf_fs x \<Longrightarrow> wf_fs y \<Longrightarrow> py_eq (unify_dicts x y) (unify_dicts y x)"
proof (induction a and x arbitrary: b and y)
  case (FeatStruct fx tx z)
  show ?case
  proof (rule unify_dicts_comm [OF FeatStruct.prems])
    fix k v w assume a: "map_of (features (FeatStruct fx tx z)) k = Some v" "wf_val w"
    then have "(k, v) \<in> set fx" by (simp add: map_of_SomeD)
    moreover have "wf_val v" using wf_lookup [OF FeatStruct.prems(1) a(1)] .
    ultimately show "py_eq (simple_unify v w) (simple_unify w v)"
      using FeatStruct.IH(1) [of "(k, v)" v w] a(2) by auto
  qed
next
  case (VFS f)
  show ?case
  proof (cases "py_eq (VFS f) b")
    case True
    then have "py_eq b (VFS f)" using py_eq_sym VFS.prems by blast
    with True show ?thesis by (simp add: simple_unify.simps)
  next
    case False
    then have nb: "\<not> py_eq b (VFS f)" using py_eq_sym VFS.prems by blast
    show ?thesis
    proof (cases b)
      case (VFS g)
      with False nb VFS.prems VFS.IH [of g] show ?thesis
        by (simp add: simple_unify_FS)
    qed (use False nb in \<open>simp_all add: simple_unify.simps\<close>)
  qed
next
  case VNone
  then show ?case by (cases b) (simp_all add: simple_unify.simps)
next
  case (VBool c)
  then show ?case by (cases b) (simp_all add: simple_unify.simps)
next
  case (VInt i)
  then show ?case by (cases b) (simp_all add: simple_unify.simps)
next
  case (VStr s)
  then show ?case by (cases b) (simp_all add: simple_unify.simps)
qed

text \<open>
  C1, as the code has it. \<open>simple_unify(a, b)\<close> returns \<open>a\<close> when \<open>a == b\<close>. Otherwise, when
  both are \<open>FeatStruct\<close>s, a name has a value in an operand when the operand holds something
  other than the string \<open>'nil'\<close> under it; if some name has values in both operands that
  do not unify, the result is \<open>'fail'\<close>; if not, the result is a new structure, without
  types and not frozen, that holds exactly the names with a value in either operand: the
  unification of the two values where both have one, the value of the one operand that
  has one elsewhere. Otherwise, when one of the two is no \<open>FeatStruct\<close>, the result is
  \<open>'fail'\<close>. Nothing raises. The scenario of the spec holds:
  \<open>[tense=past, subj=[num=sg]]\<close> and \<open>[tense=past, subj=[gen=fem]]\<close> unify to
  \<open>[tense=past, subj=[num=sg, gen=fem]]\<close>.
\<close>

theorem simple_unify_merges:
  "(py_eq a b \<longrightarrow> simple_unify a b = a) \<and>
   (\<not> py_eq a b \<longrightarrow>
      (\<forall>x y. a = VFS x \<and> b = VFS y \<longrightarrow>
         ((\<exists>k. clash x y k) \<longrightarrow> simple_unify a b = VStr ''fail'') \<and>
         (\<not> (\<exists>k. clash x y k) \<longrightarrow>
            (\<exists>r. simple_unify a b = VFS r \<and> types r = [] \<and> \<not> frozen r \<and>
                 distinct (map fst (features r)) \<and>
                 (\<forall>k. map_of (features r) k = merged x y k)))) \<and>
      ((\<nexists>x. a = VFS x) \<or> (\<nexists>y. b = VFS y) \<longrightarrow> simple_unify a b = VStr ''fail'')) \<and>
   py_eq
     (simple_unify
        (VFS (FeatStruct [(''tense'', VStr ''past''),
                          (''subj'', VFS (FeatStruct [(''num'', VStr ''sg'')] [] False))] [] False))
        (VFS (FeatStruct [(''tense'', VStr ''past''),
                          (''subj'', VFS (FeatStruct [(''gen'', VStr ''fem'')] [] False))] [] False)))
     (VFS (FeatStruct [(''tense'', VStr ''past''),
                       (''subj'', VFS (FeatStruct [(''num'', VStr ''sg''),
                                                   (''gen'', VStr ''fem'')] [] False))] [] False))"
proof -
  have 1: "py_eq a b \<longrightarrow> simple_unify a b = a"
    by (simp add: simple_unify.simps)
  have 2: "simple_unify a b = VStr ''fail''"
    if "\<not> py_eq a b" "a = VFS x" "b = VFS y" "\<exists>k. clash x y k" for x y
    using that by (simp add: simple_unify_FS unify_dicts_fail)
  have 3: "\<exists>r. simple_unify a b = VFS r \<and> types r = [] \<and> \<not> frozen r \<and>
                 distinct (map fst (features r)) \<and>
                 (\<forall>k. map_of (features r) k = merged x y k)"
    if "\<not> py_eq a b" "a = VFS x" "b = VFS y" "\<not> (\<exists>k. clash x y k)" for x y
    using that unify_dicts_ok [of x y] by (simp add: simple_unify_FS)
  have 4: "simple_unify a b = VStr ''fail''"
    if "\<not> py_eq a b" "(\<nexists>x. a = VFS x) \<or> (\<nexists>y. b = VFS y)"
    using that by (rule simple_unify_not_FS)
  have 5: "py_eq
     (simple_unify
        (VFS (FeatStruct [(''tense'', VStr ''past''),
                          (''subj'', VFS (FeatStruct [(''num'', VStr ''sg'')] [] False))] [] False))
        (VFS (FeatStruct [(''tense'', VStr ''past''),
                          (''subj'', VFS (FeatStruct [(''gen'', VStr ''fem'')] [] False))] [] False)))
     (VFS (FeatStruct [(''tense'', VStr ''past''),
                       (''subj'', VFS (FeatStruct [(''num'', VStr ''sg''),
                                                   (''gen'', VStr ''fem'')] [] False))] [] False))"
    by code_simp
  show ?thesis using 1 2 3 4 5 by blast
qed

theorem simple_unify_merges_witness:
  "simple_unify (VFS (FeatStruct [(''tense'', VStr ''past'')] [] False))
                (VFS (FeatStruct [(''tense'', VStr ''past'')] [] True))
     = VFS (FeatStruct [(''tense'', VStr ''past'')] [] False) \<and>
   simple_unify (VFS (FeatStruct [(''tense'', VStr ''past'')] [] False))
                (VFS (FeatStruct [(''tense'', VStr ''present'')] [] False))
     = VStr ''fail''"
proof -
  let ?a = "FeatStruct [(''tense'', VStr ''past'')] [] False"
  let ?b = "FeatStruct [(''tense'', VStr ''past'')] [] True"
  let ?c = "FeatStruct [(''tense'', VStr ''present'')] [] False"
  have e: "py_eq (VFS ?a) (VFS ?b)" by code_simp
  have n: "\<not> py_eq (VFS ?a) (VFS ?c)" by code_simp
  have "clash ?a ?c ''tense''" by code_simp
  then have c: "\<exists>k. clash ?a ?c k" by blast
  from simple_unify_merges [of "VFS ?a" "VFS ?b"] e
  have "simple_unify (VFS ?a) (VFS ?b) = VFS ?a" by blast
  moreover from simple_unify_merges [of "VFS ?a" "VFS ?c"] n c
  have "simple_unify (VFS ?a) (VFS ?c) = VStr ''fail''" by blast
  ultimately show ?thesis by simp
qed

text \<open>
  C1 as stated fails for a name that holds the string \<open>'nil'\<close>: the name \<open>a\<close> of the
  first operand is a feature name of that operand and of no other, and the result has
  no value for it.
\<close>

theorem simple_unify_nil_counterexample:
  "simple_unify (VFS (FeatStruct [(''a'', VStr ''nil'')] [] False))
                (VFS (FeatStruct [(''b'', VInt 1)] [] False))
     = VFS (FeatStruct [(''b'', VInt 1)] [] False) \<and>
   map_of (features (FeatStruct [(''a'', VStr ''nil'')] [] False)) ''a'' = Some (VStr ''nil'') \<and>
   map_of (features (FeatStruct [(''b'', VInt 1)] [] False)) ''a'' = None"
  by code_simp

text \<open>
  C2. \<open>simple_unify(a, b) == simple_unify(b, a)\<close> for all values whose dictionaries are
  well formed, and failure absorbs: when \<open>simple_unify(a, b)\<close> is \<open>'fail'\<close>, so is
  \<open>simple_unify(simple_unify(a, b), c)\<close> for every \<open>c\<close>.
\<close>

theorem simple_unify_commutes:
  "(wf_val a \<and> wf_val b \<longrightarrow> py_eq (simple_unify a b) (simple_unify b a)) \<and>
   (simple_unify a b = VStr ''fail'' \<longrightarrow> simple_unify (simple_unify a b) c = VStr ''fail'')"
proof -
  have "simple_unify (VStr ''fail'') c = VStr ''fail''"
    by (cases "c = VStr ''fail''") (simp_all add: simple_unify.simps)
  then show ?thesis using simple_unify_comm(1) [of a b] by auto
qed

theorem simple_unify_commutes_witness:
  "py_eq
     (simple_unify
        (VFS (FeatStruct [(''tense'', VStr ''past''),
                          (''subj'', VFS (FeatStruct [(''num'', VStr ''sg'')] [] False))] [] False))
        (VFS (FeatStruct [(''tense'', VStr ''past''),
                          (''subj'', VFS (FeatStruct [(''gen'', VStr ''fem'')] [] False))] [] False)))
     (simple_unify
        (VFS (FeatStruct [(''tense'', VStr ''past''),
                          (''subj'', VFS (FeatStruct [(''gen'', VStr ''fem'')] [] False))] [] False))
        (VFS (FeatStruct [(''tense'', VStr ''past''),
                          (''subj'', VFS (FeatStruct [(''num'', VStr ''sg'')] [] False))] [] False))) \<and>
   simple_unify
     (simple_unify (VFS (FeatStruct [(''tense'', VStr ''past'')] [] False))
                   (VFS (FeatStruct [(''tense'', VStr ''present'')] [] False)))
     (VFS (FeatStruct [(''x'', VInt 1)] [] False)) = VStr ''fail''"
proof -
  let ?a = "VFS (FeatStruct [(''tense'', VStr ''past''),
                          (''subj'', VFS (FeatStruct [(''num'', VStr ''sg'')] [] False))] [] False)"
  let ?b = "VFS (FeatStruct [(''tense'', VStr ''past''),
                          (''subj'', VFS (FeatStruct [(''gen'', VStr ''fem'')] [] False))] [] False)"
  let ?p = "VFS (FeatStruct [(''tense'', VStr ''past'')] [] False)"
  let ?q = "VFS (FeatStruct [(''tense'', VStr ''present'')] [] False)"
  have w: "wf_val ?a \<and> wf_val ?b" by simp
  have f: "simple_unify ?p ?q = VStr ''fail''" by code_simp
  from simple_unify_commutes [of ?a ?b] w
  have "py_eq (simple_unify ?a ?b) (simple_unify ?b ?a)" by blast
  moreover from simple_unify_commutes [of ?p ?q "VFS (FeatStruct [(''x'', VInt 1)] [] False)"] f
  have "simple_unify (simple_unify ?p ?q) (VFS (FeatStruct [(''x'', VInt 1)] [] False)) = VStr ''fail''"
    by blast
  ultimately show ?thesis by blast
qed

section \<open>Unification of sets of feature structures\<close>

text \<open>
  Unification keeps dictionaries well formed and returns a feature structure or
  \<open>'fail'\<close>; freezing changes no value; \<open>FSSet(*items)\<close> holds the frozen items, each
  of them up to \<open>==\<close>.
\<close>

lemma wf_fs_intro:
  assumes "distinct (map fst (features f))"
    and "\<And>k v. map_of (features f) k = Some v \<Longrightarrow> wf_val v"
    and "\<And>t. t \<in> set (types f) \<Longrightarrow> wf_fs t"
  shows "wf_fs f"
proof (cases f)
  case (FeatStruct fx tx z)
  have "wf_val (snd p)" if "p \<in> set fx" for p
  proof -
    from that have "map_of fx (fst p) = Some (snd p)"
      using assms(1) FeatStruct map_of_eq_Some_iff [of fx "fst p" "snd p"] by simp
    then show ?thesis using assms(2) [of "fst p" "snd p"] FeatStruct by simp
  qed
  then show ?thesis using assms(1,3) FeatStruct by (simp add: list_all_iff)
qed

lemma simple_unify_cases:
  "simple_unify (VFS a) (VFS b) = VStr ''fail'' \<or> (\<exists>r. simple_unify (VFS a) (VFS b) = VFS r)"
proof (cases "py_eq (VFS a) (VFS b)")
  case True
  then show ?thesis by (simp add: simple_unify.simps)
next
  case False
  then show ?thesis
    using unify_dicts_fail [of a b] unify_dicts_ok [of a b]
    by (auto simp: simple_unify_FS)
qed

lemma unify_dicts_wf:
  assumes wf: "wf_fs x" "wf_fs y"
    and IH: "\<And>k v w. map_of (features x) k = Some v \<Longrightarrow> wf_val w \<Longrightarrow> wf_val (simple_unify v w)"
  shows "wf_val (unify_dicts x y)"
proof (cases "\<exists>k. clash x y k")
  case True
  then have "unify_dicts x y = VStr ''fail''" using unify_dicts_fail by blast
  then show ?thesis by simp
next
  case False
  from unify_dicts_ok [OF False] obtain r where
    r: "unify_dicts x y = VFS r" "types r = []" "distinct (map fst (features r))"
      "\<forall>k. map_of (features r) k = merged x y k" by blast
  have vals: "wf_val v" if "map_of (features r) k = Some v" for k v
  proof -
    from that r(4) have m: "merged x y k = Some v" by simp
    have wx: "wf_val (get x k (VStr ''nil''))" if "has_value x k"
      using wf_lookup [OF wf(1) has_value_lookup [OF that]] .
    have wy: "wf_val (get y k (VStr ''nil''))" if "has_value y k"
      using wf_lookup [OF wf(2) has_value_lookup [OF that]] .
    have wu: "wf_val (simple_unify (get x k (VStr ''nil'')) (get y k (VStr ''nil'')))"
      if "has_value x k" "has_value y k"
      using IH [OF has_value_lookup [OF that(1)] wy [OF that(2)]] .
    consider (both) "has_value x k" "has_value y k"
      | (left) "has_value x k" "\<not> has_value y k"
      | (right) "\<not> has_value x k" "has_value y k"
      | (none) "\<not> has_value x k" "\<not> has_value y k" by blast
    then show ?thesis
    proof cases
      case both
      then have "v = simple_unify (get x k (VStr ''nil'')) (get y k (VStr ''nil''))"
        using m by (simp add: merged_def)
      then show ?thesis using wu [OF both] by simp
    next
      case left
      then have "v = get x k (VStr ''nil'')" using m by (simp add: merged_def)
      then show ?thesis using wx [OF left(1)] by simp
    next
      case right
      then have "v = get y k (VStr ''nil'')" using m by (simp add: merged_def)
      then show ?thesis using wy [OF right(2)] by simp
    next
      case none
      then show ?thesis using m by (simp add: merged_def)
    qed
  qed
  have "wf_fs r"
  proof (rule wf_fs_intro)
    show "distinct (map fst (features r))" by (rule r(3))
    show "wf_val v" if "map_of (features r) k = Some v" for k v using vals [OF that] .
    show "wf_fs t" if "t \<in> set (types r)" for t using that r(2) by simp
  qed
  with r(1) show ?thesis by simp
qed

lemma simple_unify_wf:
  "wf_val a \<Longrightarrow> wf_val b \<Longrightarrow> wf_val (simple_unify a b)"
  and "wf_fs x \<Longrightarrow> wf_fs y \<Longrightarrow> wf_val (unify_dicts x y)"
proof (induction a and x arbitrary: b and y)
  case (FeatStruct fx tx z)
  show ?case
  proof (rule unify_dicts_wf [OF FeatStruct.prems])
    fix k v w assume a: "map_of (features (FeatStruct fx tx z)) k = Some v" "wf_val w"
    then have "(k, v) \<in> set fx" by (simp add: map_of_SomeD)
    moreover have "wf_val v" using wf_lookup [OF FeatStruct.prems(1) a(1)] .
    ultimately show "wf_val (simple_unify v w)"
      using FeatStruct.IH(1) [of "(k, v)" v w] a(2) by auto
  qed
next
  case (VFS f)
  show ?case
  proof (cases "py_eq (VFS f) b")
    case True
    with VFS.prems show ?thesis by (simp add: simple_unify.simps)
  next
    case False
    show ?thesis
    proof (cases b)
      case (VFS g)
      with False VFS.prems VFS.IH [of g] show ?thesis by (simp add: simple_unify_FS)
    qed (use False in \<open>simp_all add: simple_unify.simps\<close>)
  qed
qed (simp_all add: simple_unify.simps)

lemma freeze_rec_equal:
  "wf_val v \<Longrightarrow> py_eq v (freeze_val v) \<and> py_eq (freeze_val v) v"
  "wf_fs f \<Longrightarrow> equal_values f (freeze_rec f) \<and> equal_values (freeze_rec f) f"
proof (induction v and f)
  case (FeatStruct fx tx z)
  have d: "distinct (map fst fx)" using FeatStruct.prems by simp
  have t: "equal_values t t" if "t \<in> set tx" for t
    using that FeatStruct.prems equal_values_refl by (auto simp: list_all_iff)
  have v: "py_eq v (freeze_val v) \<and> py_eq (freeze_val v) v" if "map_of fx k = Some v" for k v
  proof -
    from that have "(k, v) \<in> set fx" by (rule map_of_SomeD)
    then show ?thesis using FeatStruct.IH(1) [of "(k, v)" v] FeatStruct.prems
      by (auto simp: list_all_iff)
  qed
  show ?case
    using equal_values_mapped [of fx tx freeze_val z True, OF d t v] by simp
qed auto

lemma freeze_rec_wf: "wf_val v \<Longrightarrow> wf_val (freeze_val v)" "wf_fs f \<Longrightarrow> wf_fs (freeze_rec f)"
  by (induction v and f) (auto simp: list_all_iff comp_def)

lemma freeze_wf: "wf_fs f \<Longrightarrow> wf_fs (freeze f)"
  by (simp add: freeze_def freeze_rec_wf)

lemma freeze_equal: "wf_fs f \<Longrightarrow> equal_values (freeze f) f \<and> equal_values f (freeze f)"
  by (simp add: freeze_def freeze_rec_equal equal_values_refl)

lemma set_add_sound: "set (foldl set_add s fs) \<subseteq> set s \<union> set fs"
proof (induction fs arbitrary: s)
  case Nil
  then show ?case by simp
next
  case (Cons a fs)
  have "set (set_add s a) \<subseteq> set s \<union> {a}" by (auto simp: set_add_def)
  with Cons [of "set_add s a"] show ?case by auto
qed

lemma set_add_keeps: "g \<in> set s \<Longrightarrow> g \<in> set (foldl set_add s fs)"
  by (induction fs arbitrary: s) (auto simp: set_add_def)

lemma set_add_covers:
  "f \<in> set fs \<Longrightarrow> equal_values f f \<Longrightarrow> \<exists>g \<in> set (foldl set_add s fs). equal_values g f"
proof (induction fs arbitrary: s)
  case Nil
  then show ?case by simp
next
  case (Cons a fs)
  show ?case
  proof (cases "f = a")
    case True
    have "\<exists>g \<in> set (set_add s a). equal_values g a"
      using Cons.prems(2) True by (auto simp: set_add_def list_ex_iff)
    then show ?thesis using True set_add_keeps by fastforce
  next
    case False
    with Cons show ?thesis by auto
  qed
qed

lemma FSSet_sound: "g \<in> set (FSSet items) \<Longrightarrow> \<exists>r\<in>set items. g = freeze r"
  using set_add_sound [of "[]" "map freeze items"] by (auto simp: FSSet_def)

lemma FSSet_complete:
  "r \<in> set items \<Longrightarrow> wf_fs r \<Longrightarrow> \<exists>g\<in>set (FSSet items). equal_values g (freeze r)"
  using set_add_covers [of "freeze r" "map freeze items" "[]"]
    equal_values_refl [OF freeze_wf [of r]]
  by (auto simp: FSSet_def)

lemma result1_iff:
  "u \<in> set (result1 x y) \<longleftrightarrow> (\<exists>f1\<in>set x. \<exists>f2\<in>set y. simple_unify (VFS f1) (VFS f2) = u)"
  by (auto simp: result1_def)

lemma fs_items_iff: "r \<in> set (fs_items vs) \<longleftrightarrow> VFS r \<in> set vs"
  by (induction vs rule: fs_items.induct) auto

lemma unify_items_iff:
  "r \<in> set (fs_items (filter (\<lambda>u. \<not> py_eq u (VStr ''fail'')) (result1 x y))) \<longleftrightarrow>
   (\<exists>f1\<in>set x. \<exists>f2\<in>set y. simple_unify (VFS f1) (VFS f2) = VFS r)"
  by (auto simp: fs_items_iff result1_iff)

text \<open>
  C3. \<open>x.unify(y)\<close> unifies every pair of a member of \<open>x\<close> and a member of \<open>y\<close>. When every
  result is \<open>== TOP\<close> the set returned is \<open>TOPFSS\<close>. Otherwise every member of the set
  returned is the frozen result of a pair whose unification did not fail, and every such
  pair of well-formed members has its frozen result in the set, up to \<open>==\<close>: the set is
  built by \<open>FSSet\<close> from the results other than \<open>'fail'\<close>. This holds of all sets, the
  non-empty ones among them.
\<close>

theorem unify_cross_product:
  "((\<forall>f1\<in>set x. \<forall>f2\<in>set y. py_eq (simple_unify (VFS f1) (VFS f2)) (VFS TOP)) \<longrightarrow>
      unify x y = TOPFSS) \<and>
   (\<not> (\<forall>f1\<in>set x. \<forall>f2\<in>set y. py_eq (simple_unify (VFS f1) (VFS f2)) (VFS TOP)) \<longrightarrow>
      (\<forall>g\<in>set (unify x y). \<exists>f1\<in>set x. \<exists>f2\<in>set y. \<exists>r.
          simple_unify (VFS f1) (VFS f2) = VFS r \<and> g = freeze r) \<and>
      (\<forall>f1\<in>set x. \<forall>f2\<in>set y. wf_fs f1 \<and> wf_fs f2 \<longrightarrow>
          simple_unify (VFS f1) (VFS f2) = VStr ''fail'' \<or>
          (\<exists>r g. simple_unify (VFS f1) (VFS f2) = VFS r \<and> g \<in> set (unify x y) \<and>
                 equal_values g (freeze r))))"
proof -
  let ?all = "\<forall>f1\<in>set x. \<forall>f2\<in>set y. py_eq (simple_unify (VFS f1) (VFS f2)) (VFS TOP)"
  let ?items = "fs_items (filter (\<lambda>u. \<not> py_eq u (VStr ''fail'')) (result1 x y))"
  have ev: "every (\<lambda>u. py_eq u (VFS TOP)) (result1 x y) \<longleftrightarrow> ?all"
    unfolding every_def list_all_iff Ball_def result1_iff by blast
  have top: "unify x y = TOPFSS" if ?all
  proof -
    from that ev have "every (\<lambda>u. py_eq u (VFS TOP)) (result1 x y)" by blast
    then show ?thesis by (simp add: unify_def)
  qed
  have rest: "unify x y = FSSet ?items" if "\<not> ?all"
  proof -
    from that ev have "\<not> every (\<lambda>u. py_eq u (VFS TOP)) (result1 x y)" by blast
    then show ?thesis by (simp add: unify_def)
  qed
  have a: "\<exists>f1\<in>set x. \<exists>f2\<in>set y. \<exists>r. simple_unify (VFS f1) (VFS f2) = VFS r \<and> g = freeze r"
    if "\<not> ?all" "g \<in> set (unify x y)" for g
  proof -
    from that have "g \<in> set (FSSet ?items)" using rest by simp
    from FSSet_sound [OF this] obtain r where "r \<in> set ?items" "g = freeze r" by blast
    then show ?thesis using unify_items_iff [of r x y] by blast
  qed
  have b: "simple_unify (VFS f1) (VFS f2) = VStr ''fail'' \<or>
          (\<exists>r g. simple_unify (VFS f1) (VFS f2) = VFS r \<and> g \<in> set (unify x y) \<and>
                 equal_values g (freeze r))"
    if "\<not> ?all" "f1 \<in> set x" "f2 \<in> set y" "wf_fs f1" "wf_fs f2" for f1 f2
  proof (cases "simple_unify (VFS f1) (VFS f2) = VStr ''fail''")
    case True
    then show ?thesis by simp
  next
    case False
    then obtain r where r: "simple_unify (VFS f1) (VFS f2) = VFS r"
      using simple_unify_cases [of f1 f2] by blast
    have "wf_val (simple_unify (VFS f1) (VFS f2))"
      using simple_unify_wf(1) [of "VFS f1" "VFS f2"] that(4,5) by simp
    with r have w: "wf_fs r" by simp
    from r that(2,3) have "r \<in> set ?items" using unify_items_iff [of r x y] by blast
    from FSSet_complete [OF this w] rest [OF that(1)] r show ?thesis by auto
  qed
  show ?thesis using top a b by blast
qed

theorem unify_cross_product_witness:
  "unify [FeatStruct [] [] True] [FeatStruct [] [] True] = [FeatStruct [] [] True] \<and>
   unify [FeatStruct [(''t'', VStr ''past'')] [] True]
         [FeatStruct [(''t'', VStr ''pres'')] [] True, FeatStruct [(''n'', VStr ''sg'')] [] True]
     = [FeatStruct [(''t'', VStr ''past''), (''n'', VStr ''sg'')] [] True]"
proof -
  let ?top = "FeatStruct [] [] True"
  have h: "\<forall>f1\<in>set [?top]. \<forall>f2\<in>set [?top]. py_eq (simple_unify (VFS f1) (VFS f2)) (VFS TOP)"
    by (simp add: TOP_eq simple_unify.simps)
  from unify_cross_product [of "[?top]" "[?top]"] h
  have "unify [?top] [?top] = TOPFSS" by blast
  moreover have "unify [FeatStruct [(''t'', VStr ''past'')] [] True]
         [FeatStruct [(''t'', VStr ''pres'')] [] True, FeatStruct [(''n'', VStr ''sg'')] [] True]
     = [FeatStruct [(''t'', VStr ''past''), (''n'', VStr ''sg'')] [] True]"
    by code_simp
  ultimately show ?thesis by (simp add: TOPFSS_eq)
qed

text \<open>Unification with \<open>TOP\<close>, from the left and from the right.\<close>

lemma TOP_no_value: "\<not> has_value TOP k"
  by (simp add: has_value_def get_def TOP_eq)

lemma plain_fs_value:
  assumes "plain_fs f"
  shows "has_value f k \<longleftrightarrow> map_of (features f) k \<noteq> None"
    and "map_of (features f) k = Some v \<Longrightarrow> get f k (VStr ''nil'') = v"
proof -
  have "v \<noteq> VStr ''nil''" if "map_of (features f) k = Some v" for v
  proof -
    have "v \<in> snd ` set (features f)"
      using map_of_SomeD [OF that] by (metis image_eqI snd_conv)
    moreover have "VStr ''nil'' \<notin> snd ` set (features f)"
      using assms by (simp add: plain_fs_def)
    ultimately show ?thesis by blast
  qed
  then show "has_value f k \<longleftrightarrow> map_of (features f) k \<noteq> None"
    by (auto simp: has_value_def get_def split: option.splits)
  show "map_of (features f) k = Some v \<Longrightarrow> get f k (VStr ''nil'') = v"
    by (simp add: get_def)
qed

lemma merged_TOP:
  assumes "plain_fs f"
  shows "merged TOP f k = map_of (features f) k" "merged f TOP k = map_of (features f) k"
  using plain_fs_value [OF assms, of k] TOP_no_value
  by (auto simp: merged_def)

lemma equal_same_features:
  assumes "wf_fs f" "types f = []" "types r = []" "distinct (map fst (features r))"
    and "\<forall>k. map_of (features r) k = map_of (features f) k"
  shows "wf_fs r \<and> equal_values r f"
proof
  show "wf_fs r"
  proof (rule wf_fs_intro)
    show "distinct (map fst (features r))" by (rule assms(4))
    show "wf_val v" if "map_of (features r) k = Some v" for k v
      using that assms(5) wf_lookup [OF assms(1), of k v] by simp
    show "wf_fs t" if "t \<in> set (types r)" for t using that assms(3) by simp
  qed
  have "py_eq v w" if "map_of (features r) k = Some v" "map_of (features f) k = Some w" for k v w
    using that assms(5) wf_lookup [OF assms(1), of k w] py_eq_refl by simp
  moreover have "dom (map_of (features r)) = dom (map_of (features f))"
    using assms(5) by (auto simp: dom_def)
  ultimately show "equal_values r f"
    unfolding equal_values_iff [OF assms(4) wf_distinct [OF assms(1)]]
    using assms(2,3) by auto
qed

lemma wf_TOP: "wf_fs TOP"
  by (simp add: TOP_eq)

lemma unify_TOP_left:
  assumes "plain_fs f"
  shows "\<exists>g. simple_unify (VFS TOP) (VFS f) = VFS g \<and> wf_fs g \<and> equal_values g f"
proof (cases "py_eq (VFS TOP) (VFS f)")
  case True
  then show ?thesis using wf_TOP by (simp add: simple_unify.simps)
next
  case False
  have nc: "\<not> (\<exists>k. clash TOP f k)" using TOP_no_value by (simp add: clash_def)
  from unify_dicts_ok [OF nc] obtain r where
    r: "unify_dicts TOP f = VFS r" "types r = []" "distinct (map fst (features r))"
      "\<forall>k. map_of (features r) k = merged TOP f k" by blast
  have "wf_fs r \<and> equal_values r f"
    using assms r(2,3,4) merged_TOP(1) [OF assms]
    by (intro equal_same_features) (simp_all add: plain_fs_def)
  with r(1) False show ?thesis by (simp add: simple_unify_FS)
qed

lemma unify_TOP_right:
  assumes "plain_fs f"
  shows "\<exists>g. simple_unify (VFS f) (VFS TOP) = VFS g \<and> wf_fs g \<and> equal_values g f"
proof (cases "py_eq (VFS f) (VFS TOP)")
  case True
  then show ?thesis using assms equal_values_refl [of f]
    by (simp add: simple_unify.simps plain_fs_def)
next
  case False
  have nc: "\<not> (\<exists>k. clash f TOP k)" using TOP_no_value by (simp add: clash_def)
  from unify_dicts_ok [OF nc] obtain r where
    r: "unify_dicts f TOP = VFS r" "types r = []" "distinct (map fst (features r))"
      "\<forall>k. map_of (features r) k = merged f TOP k" by blast
  have "wf_fs r \<and> equal_values r f"
    using assms r(2,3,4) merged_TOP(2) [OF assms]
    by (intro equal_same_features) (simp_all add: plain_fs_def)
  with r(1) False show ?thesis by (simp add: simple_unify_FS)
qed

lemma identity_generic:
  assumes ne: "x \<noteq> []"
    and U: "\<And>f. f \<in> set x \<Longrightarrow> \<exists>g. su f = VFS g \<and> wf_fs g \<and> equal_values g f"
    and wfx: "\<And>f. f \<in> set x \<Longrightarrow> wf_fs f"
  shows "fsset_eq (if every (\<lambda>u. py_eq u (VFS TOP)) (map su x) then TOPFSS
                   else FSSet (fs_items (filter (\<lambda>u. \<not> py_eq u (VStr ''fail'')) (map su x)))) x"
proof (cases "every (\<lambda>u. py_eq u (VFS TOP)) (map su x)")
  case True
  have "equal_values TOP f" if "f \<in> set x" for f
  proof -
    from U [OF that] obtain g where g: "su f = VFS g" "wf_fs g" "equal_values g f" by blast
    from True that g(1) have "equal_values g TOP" by (auto simp: every_def list_all_iff)
    then have "equal_values TOP g" using equal_values_sym g(2) wf_TOP by blast
    then show ?thesis using equal_values_trans g(2,3) wf_TOP wfx [OF that] by blast
  qed
  moreover from ne obtain f0 where "f0 \<in> set x" by (cases x) auto
  ultimately have "fsset_eq [TOP] x"
    by (auto simp: fsset_eq_def list_all_iff list_ex_iff)
  with True show ?thesis by (simp add: TOPFSS_eq TOP_eq)
next
  case False
  let ?items = "fs_items (filter (\<lambda>u. \<not> py_eq u (VStr ''fail'')) (map su x))"
  have items: "r \<in> set ?items \<longleftrightarrow> (\<exists>f\<in>set x. su f = VFS r)" for r
    by (auto simp: fs_items_iff image_iff) metis
  have item_ok: "wf_fs r \<and> equal_values r f" if "f \<in> set x" "su f = VFS r" for r f
    using U [OF that(1)] that(2) by auto
  have a: "\<exists>f\<in>set x. equal_values g f" if "g \<in> set (FSSet ?items)" for g
  proof -
    from FSSet_sound [OF that] obtain r where r: "r \<in> set ?items" "g = freeze r" by blast
    then obtain f where f: "f \<in> set x" "su f = VFS r" using items by blast
    from item_ok [OF f] have w: "wf_fs r" "equal_values r f" by simp_all
    have "equal_values (freeze r) f"
      using equal_values_trans [of "freeze r" r f] freeze_equal [OF w(1)] freeze_wf [OF w(1)]
        w wfx [OF f(1)] by blast
    with r(2) f(1) show ?thesis by blast
  qed
  have b: "\<exists>g\<in>set (FSSet ?items). equal_values g f" if "f \<in> set x" for f
  proof -
    from U [OF that] obtain r where r: "su f = VFS r" "wf_fs r" "equal_values r f" by blast
    then have "r \<in> set ?items" using items that by blast
    from FSSet_complete [OF this r(2)] obtain g where
      g: "g \<in> set (FSSet ?items)" "equal_values g (freeze r)" by blast
    from FSSet_sound [OF g(1)] obtain r' where r': "r' \<in> set ?items" "g = freeze r'" by blast
    then obtain f' where "f' \<in> set x" "su f' = VFS r'" using items by blast
    then have "wf_fs r'" using item_ok by blast
    then have wg: "wf_fs g" using r'(2) freeze_wf by simp
    have "equal_values g r"
      using equal_values_trans [of g "freeze r" r] g(2) freeze_equal [OF r(2)] wg
        freeze_wf [OF r(2)] r(2) by blast
    then have "equal_values g f"
      using equal_values_trans [of g r f] r(2,3) wg wfx [OF that] by blast
    with g(1) show ?thesis by blast
  qed
  from a b have "fsset_eq (FSSet ?items) x"
    by (auto simp: fsset_eq_def list_all_iff list_ex_iff)
  with False show ?thesis by simp
qed

lemma result1_TOP:
  "result1 TOPFSS x = map (\<lambda>f. simple_unify (VFS TOP) (VFS f)) x"
  "result1 x TOPFSS = map (\<lambda>f. simple_unify (VFS f) (VFS TOP)) x"
proof -
  show "result1 TOPFSS x = map (\<lambda>f. simple_unify (VFS TOP) (VFS f)) x"
    by (simp add: result1_def TOPFSS_eq TOP_eq)
  show "result1 x TOPFSS = map (\<lambda>f. simple_unify (VFS f) (VFS TOP)) x"
    by (induction x) (simp_all add: result1_def TOPFSS_eq TOP_eq)
qed


text \<open>
  C4, as the code has it. For a set \<open>x\<close> that is not empty and whose members have no
  types and no feature that holds the string \<open>'nil'\<close>, \<open>TOPFSS.unify(x)\<close> and
  \<open>x.unify(TOPFSS)\<close> are both \<open>==\<close> to \<open>x\<close> as sets: the same members up to structural
  equality.
\<close>

theorem TOPFSS_is_identity:
  assumes "x \<noteq> []" "list_all plain_fs x"
  shows "fsset_eq (unify TOPFSS x) x \<and> fsset_eq (unify x TOPFSS) x"
proof -
  have p: "plain_fs f" if "f \<in> set x" for f using that assms(2) by (simp add: list_all_iff)
  then have w: "wf_fs f" if "f \<in> set x" for f using that by (simp add: plain_fs_def)
  have l: "fsset_eq (unify TOPFSS x) x"
    unfolding unify_def result1_TOP
    by (rule identity_generic [OF assms(1)]) (use p w unify_TOP_left in auto)
  have r: "fsset_eq (unify x TOPFSS) x"
    unfolding unify_def result1_TOP
    by (rule identity_generic [OF assms(1)]) (use p w unify_TOP_right in auto)
  from l r show ?thesis ..
qed

theorem TOPFSS_is_identity_witness:
  "fsset_eq
     (unify TOPFSS [FeatStruct [(''a'', VInt 1)] [] True, FeatStruct [] [] True])
     [FeatStruct [(''a'', VInt 1)] [] True, FeatStruct [] [] True] \<and>
   fsset_eq
     (unify [FeatStruct [(''a'', VInt 1)] [] True, FeatStruct [] [] True] TOPFSS)
     [FeatStruct [(''a'', VInt 1)] [] True, FeatStruct [] [] True]"
proof -
  let ?x = "[FeatStruct [(''a'', VInt 1)] [] True, FeatStruct [] [] True]"
  have 1: "?x \<noteq> []" by simp
  have 2: "list_all plain_fs ?x" by (simp add: plain_fs_def)
  show ?thesis using TOPFSS_is_identity [OF 1 2] .
qed

text \<open>
  C4 as stated fails on the empty set, for which both products are \<open>TOPFSS\<close>; on a member
  with a feature that holds \<open>'nil'\<close>, which the result does not have; and on a member
  with types, which the result does not have.
\<close>

theorem TOPFSS_not_identity_counterexample:
  "unify TOPFSS [] = [FeatStruct [] [] True] \<and>
   \<not> fsset_eq (unify TOPFSS []) [] \<and>
   \<not> fsset_eq (unify [] TOPFSS) [] \<and>
   unify TOPFSS [FeatStruct [(''a'', VStr ''nil'')] [] True] = [FeatStruct [] [] True] \<and>
   \<not> fsset_eq (unify TOPFSS [FeatStruct [(''a'', VStr ''nil'')] [] True])
        [FeatStruct [(''a'', VStr ''nil'')] [] True] \<and>
   unify TOPFSS [FeatStruct [(''a'', VInt 1)] [FeatStruct [(''b'', VInt 2)] [] True] True]
     = [FeatStruct [(''a'', VInt 1)] [] True] \<and>
   \<not> fsset_eq
        (unify TOPFSS [FeatStruct [(''a'', VInt 1)] [FeatStruct [(''b'', VInt 2)] [] True] True])
        [FeatStruct [(''a'', VInt 1)] [FeatStruct [(''b'', VInt 2)] [] True] True]"
  by code_simp

section \<open>Frozen structures\<close>

text \<open>
  C6. On a frozen \<open>FeatStruct\<close> each mutating method (\<open>__setitem__\<close>, \<open>__delitem__\<close>,
  \<open>clear\<close>, \<open>update\<close>) raises \<open>ValueError\<close> with the message \<open>_FROZEN_ERROR\<close>, whatever its
  arguments, and leaves the structure as it was. The exception is raised, not returned,
  and its message is not the string \<open>'fail'\<close> that unification returns.
\<close>

theorem frozen_mutation_raises:
  assumes "frozen f"
  shows "setitem f p v = (Some (ValueError FROZEN_ERROR), f) \<and>
         delitem f p = (Some (ValueError FROZEN_ERROR), f) \<and>
         clear f = (Some (ValueError FROZEN_ERROR), f) \<and>
         update f its kw = (Some (ValueError FROZEN_ERROR), f) \<and>
         FROZEN_ERROR \<noteq> ''fail''"
  using assms by (cases p) (simp_all add: clear_def update_def FROZEN_ERROR_def)

theorem frozen_mutation_raises_witness:
  "setitem (FeatStruct [(''a'', VInt 1)] [] True) (Path [''a'', ''b'']) (VInt 2)
     = (Some (ValueError ''Frozen FeatStructs may not be modified''),
        FeatStruct [(''a'', VInt 1)] [] True) \<and>
   delitem (FeatStruct [(''a'', VInt 1)] [] True) (Path [''a'', ''b''])
     = (Some (ValueError ''Frozen FeatStructs may not be modified''),
        FeatStruct [(''a'', VInt 1)] [] True) \<and>
   clear (FeatStruct [(''a'', VInt 1)] [] True)
     = (Some (ValueError ''Frozen FeatStructs may not be modified''),
        FeatStruct [(''a'', VInt 1)] [] True) \<and>
   update (FeatStruct [(''a'', VInt 1)] [] True) [(''a'', VInt 3)] []
     = (Some (ValueError ''Frozen FeatStructs may not be modified''),
        FeatStruct [(''a'', VInt 1)] [] True)"
  using frozen_mutation_raises [of "FeatStruct [(''a'', VInt 1)] [] True"
      "Path [''a'', ''b'']" "VInt 2" "[(''a'', VInt 3)]" "[]"]
  by (simp add: FROZEN_ERROR_def)

text \<open>A deep copy is equal to the original and has no frozen part.\<close>

lemma deepcopy_equal:
  "wf_val v \<Longrightarrow> py_eq v (deepcopy_val v) \<and> py_eq (deepcopy_val v) v"
  "wf_fs f \<Longrightarrow> equal_values f (deepcopy f) \<and> equal_values (deepcopy f) f"
proof (induction v and f)
  case (FeatStruct fx tx z)
  have d: "distinct (map fst fx)" using FeatStruct.prems by simp
  have t: "equal_values t t" if "t \<in> set tx" for t
    using that FeatStruct.prems equal_values_refl by (auto simp: list_all_iff)
  have v: "py_eq v (deepcopy_val v) \<and> py_eq (deepcopy_val v) v" if "map_of fx k = Some v" for k v
  proof -
    from that have "(k, v) \<in> set fx" by (rule map_of_SomeD)
    then show ?thesis using FeatStruct.IH(1) [of "(k, v)" v] FeatStruct.prems
      by (auto simp: list_all_iff)
  qed
  show ?case
    using equal_values_mapped [of fx tx deepcopy_val z False, OF d t v] by simp
qed auto

lemma deepcopy_mutable: "mutable_val (deepcopy_val v)" "mutable (deepcopy f)"
  by (induction v and f) (auto simp: list_all_iff)


text \<open>
  C5, as the code has it. \<open>unfreeze\<close> on a frozen structure returns a new structure, the
  deep copy: no part of it is frozen, and it is \<open>equal_values\<close> to the receiver. On a
  structure that is not frozen it returns the receiver itself, not a copy.
\<close>

theorem unfreeze_copies_frozen:
  assumes "wf_fs x"
  shows "(frozen x \<longrightarrow>
            (\<exists>y. unfreeze x = New y \<and> y = deepcopy x \<and> mutable y \<and>
                 equal_values x y \<and> equal_values y x)) \<and>
         (\<not> frozen x \<longrightarrow> unfreeze x = Self \<and> deref x (unfreeze x) = x)"
  using assms deepcopy_equal(2) [of x] deepcopy_mutable(2) [of x]
  by (simp add: unfreeze_def copy_def deref_def)

theorem unfreeze_copies_frozen_witness:
  "unfreeze (FeatStruct [(''a'', VFS (FeatStruct [(''b'', VInt 1)] [] True))] [] True)
     = New (FeatStruct [(''a'', VFS (FeatStruct [(''b'', VInt 1)] [] False))] [] False) \<and>
   unfreeze (FeatStruct [(''a'', VFS (FeatStruct [(''b'', VInt 1)] [] True))] [] False) = Self"
  using unfreeze_copies_frozen [of "FeatStruct [(''a'', VFS (FeatStruct [(''b'', VInt 1)] [] True))] [] True"]
    unfreeze_copies_frozen [of "FeatStruct [(''a'', VFS (FeatStruct [(''b'', VInt 1)] [] True))] [] False"]
  by simp


text \<open>
  C5 as stated fails on a receiver that is not frozen: \<open>unfreeze\<close> returns the receiver
  itself, and a nested structure of it that is frozen stays frozen. Such a receiver is
  what \<open>unify_dicts\<close> builds from frozen operands.
\<close>

theorem unfreeze_unfrozen_counterexample:
  "unfreeze (FeatStruct [(''a'', VFS (FeatStruct [(''b'', VInt 1)] [] True))] [] False) = Self \<and>
   \<not> mutable (deref (FeatStruct [(''a'', VFS (FeatStruct [(''b'', VInt 1)] [] True))] [] False)
      (unfreeze (FeatStruct [(''a'', VFS (FeatStruct [(''b'', VInt 1)] [] True))] [] False)))"
  by (simp add: unfreeze_def deref_def)

section \<open>Composition of a cascade\<close>

text \<open>
  C9. On a cascade of length one, \<open>compose\<close> returns the single element of the cascade for
  every choice of arguments: \<open>begin\<close>, \<open>end\<close>, \<open>first\<close>, \<open>last\<close> and \<open>subcasc\<close> are not looked
  at, and a label that names no subcascade raises nothing. On a cascade of two or more
  elements such a label raises \<open>ValueError\<close>.
\<close>

theorem compose_single_element:
  "(length (elems self) = 1 \<longrightarrow> compose fst_compose truthy self a = Inr (hd (elems self))) \<and>
   (2 \<le> length (elems self) \<and> arg_subcasc a = Some s \<and> s \<noteq> [] \<and>
      map_of (cascades self) s = None \<longrightarrow>
    compose fst_compose truthy self a =
      Inl (ValueError (repr_str s @ '' is not a valid subscascade label'')))"
  by (simp add: compose_def)

theorem compose_single_element_witness:
  "compose (\<lambda>fsts l r t. Inl IndexError) (\<lambda>e. True)
     \<lparr>elems = [''f0''], label = ''c'', stringsets = [], weighting = Unification,
      cascades = [(''pos'', [0, 1])]\<rparr>
     \<lparr>arg_begin = 3, arg_end = Some 0, arg_first = Some ''first'', arg_last = Some ''last'',
      arg_subcasc = Some ''nope'', arg_backwards = True, arg_relabel = False, arg_trace = 1\<rparr>
   = Inr ''f0'' \<and>
   compose (\<lambda>fsts l r t. Inl IndexError) (\<lambda>e. True)
     \<lparr>elems = [''f0'', ''f1''], label = ''c'', stringsets = [], weighting = Unification,
      cascades = [(''pos'', [0, 1])]\<rparr>
     \<lparr>arg_begin = 3, arg_end = Some 0, arg_first = Some ''first'', arg_last = Some ''last'',
      arg_subcasc = Some ''nope'', arg_backwards = True, arg_relabel = False, arg_trace = 1\<rparr>
   = Inl (ValueError (CHR 0x27 # ''nope'' @ CHR 0x27 # '' is not a valid subscascade label''))"
  using compose_single_element [of
      "\<lparr>elems = [''f0''], label = ''c'', stringsets = [], weighting = Unification,
        cascades = [(''pos'', [0, 1])]\<rparr>"
      "\<lambda>fsts l r t. Inl IndexError" "\<lambda>e. True"
      "\<lparr>arg_begin = 3, arg_end = Some 0, arg_first = Some ''first'', arg_last = Some ''last'',
        arg_subcasc = Some ''nope'', arg_backwards = True, arg_relabel = False, arg_trace = 1\<rparr>"
      "''nope''"]
    compose_single_element [of
      "\<lparr>elems = [''f0'', ''f1''], label = ''c'', stringsets = [], weighting = Unification,
        cascades = [(''pos'', [0, 1])]\<rparr>"
      "\<lambda>fsts l r t. Inl IndexError" "\<lambda>e. True"
      "\<lparr>arg_begin = 3, arg_end = Some 0, arg_first = Some ''first'', arg_last = Some ''last'',
        arg_subcasc = Some ''nope'', arg_backwards = True, arg_relabel = False, arg_trace = 1\<rparr>"
      "''nope''"]
  by (simp add: repr_str_def repr_char_def Let_def)

section \<open>Lines of a cascade file and of a morphotactic file\<close>












section \<open>Loading part of a cascade\<close>

text \<open>
  Once the subcascade asked for has been declared, the loop keeps its list of indices in
  \<open>subcasc_indices\<close>, whatever lines follow.
\<close>

lemma split_not_empty: "split c s \<noteq> []"
  by (induction s) (auto split: list.splits)

lemma parse_indices_length: "parse_indices xs = Inr ns \<Longrightarrow> length ns = length xs"
  by (induction xs arbitrary: ns) (auto split: option.splits sum.splits)

lemma parse_indices_not_empty: "parse_indices (split c s) = Inr ns \<Longrightarrow> ns \<noteq> []"
  using parse_indices_length [of "split c s" ns] split_not_empty [of c s] by auto

lemma append_elem_fields:
  "subcasc_indices (append_elem e st) = subcasc_indices st"
  "cascades (cascade (append_elem e st)) = cascades (cascade st)"
  by (simp_all add: append_elem_def)

lemma load_or_skip_cases:
  "load_or_skip load p lf st = Inr st' \<Longrightarrow> \<exists>e. append_elem e st = st'"
  unfolding load_or_skip_def
  by (cases "load p (weighting (cascade st)) lf") (auto split: if_splits)

lemma load_or_skip_keeps:
  assumes "load_or_skip load p lf st = Inr st'"
  shows "subcasc_indices st' = subcasc_indices st \<and> cascades (cascade st') = cascades (cascade st)"
  using load_or_skip_cases [OF assms] append_elem_fields by metis

lemma parse_line_fst:
  "clean raw \<noteq> [] \<Longrightarrow> re_match WEIGHTING_RE (clean raw) = None \<Longrightarrow>
   re_match SUBCASC_RE (clean raw) = None \<Longrightarrow> re_match SS_RE (clean raw) = None \<Longrightarrow>
   re_match CASC_FST_RE (clean raw) = Some g \<Longrightarrow>
   parse_line load d cn sc st raw =
     (if cn then load_or_skip load (path_join d (g ! 0 @ ''.fst'')) False st else Inr st)"
  by (simp add: parse_line_def Let_def)

lemma parse_line_lex:
  "clean raw \<noteq> [] \<Longrightarrow> re_match WEIGHTING_RE (clean raw) = None \<Longrightarrow>
   re_match SUBCASC_RE (clean raw) = None \<Longrightarrow> re_match SS_RE (clean raw) = None \<Longrightarrow>
   re_match CASC_FST_RE (clean raw) = None \<Longrightarrow>
   re_match CASC_LEX_RE (clean raw) = Some g \<Longrightarrow>
   parse_line load d cn sc st raw =
     (if cn then load_or_skip load (path_join d (g ! 0 @ ''.lex'')) True st else Inr st)"
  by (simp add: parse_line_def Let_def)

lemma load_or_skip_tracks:
  "(if cn then load_or_skip load p lf st else Inr st) = Inr st' \<Longrightarrow> tracks s st \<Longrightarrow> tracks s st'"
  by (cases cn) (auto simp: tracks_def dest: load_or_skip_keeps)

lemma parse_line_tracks:
  assumes "parse_line load d cn (Some s) st raw = Inr st'" and "tracks s st"
  shows "tracks s st'"
proof (cases "clean raw = []")
  case True
  with assms show ?thesis by (simp add: parse_line_def Let_def)
next
  case False
  note ne = this
  show ?thesis
  proof (cases "re_match WEIGHTING_RE (clean raw)")
    case (Some m)
    with assms ne show ?thesis
      by (simp add: parse_line_def tracks_def set_weighting_def Let_def) auto
  next
    case None
    note w = this
    show ?thesis
    proof (cases "re_match SUBCASC_RE (clean raw)")
      case (Some m)
      show ?thesis
      proof (cases "parse_indices (split CHR '','' (m ! 1))")
        case (Inl e)
        with assms ne w Some show ?thesis by (simp add: parse_line_def Let_def)
      next
        case (Inr ixs)
        then have "ixs \<noteq> []" by (rule parse_indices_not_empty)
        with assms ne w Some Inr have "st' = st\<lparr>cascade := (cascade st)
                          \<lparr>cascades := AList.update (m ! 0) ixs (cascades (cascade st))\<rparr>,
                        subcasc_indices :=
                          (if Some (m ! 0) = Some s then ixs else subcasc_indices st)\<rparr>"
          by (simp add: parse_line_def Let_def)
        with \<open>ixs \<noteq> []\<close> assms(2) show ?thesis
          by (cases "m ! 0 = s") (simp_all add: tracks_def update_conv')
      qed
    next
      case None
      note sc = this
      show ?thesis
      proof (cases "re_match SS_RE (clean raw)")
        case (Some m)
        with assms ne w sc show ?thesis
          by (simp add: parse_line_def tracks_def add_stringset_def Let_def) auto
      next
        case None
        note ss = this
        show ?thesis
        proof (cases "re_match CASC_FST_RE (clean raw)")
          case (Some g)
          show ?thesis
            using assms load_or_skip_tracks
            unfolding parse_line_fst [OF ne w sc ss Some] by blast
        next
          case None
          note f = this
          show ?thesis
          proof (cases "re_match CASC_LEX_RE (clean raw)")
            case (Some g)
            show ?thesis
              using assms load_or_skip_tracks
              unfolding parse_line_lex [OF ne w sc ss f Some] by blast
          next
            case None
            with assms ne w sc ss f show ?thesis by (simp add: parse_line_def Let_def)
          qed
        qed
      qed
    qed
  qed
qed

lemma parse_line_declares:
  assumes "parse_line load d cn (Some s) st decl = Inr st'"
    and "clean decl \<noteq> []" "re_match WEIGHTING_RE (clean decl) = None"
    and "re_match SUBCASC_RE (clean decl) = Some m" "m ! 0 = s"
  shows "tracks s st'"
proof (cases "parse_indices (split CHR '','' (m ! 1))")
  case (Inl e)
  with assms show ?thesis by (simp add: parse_line_def Let_def)
next
  case (Inr ixs)
  then have "ixs \<noteq> []" by (rule parse_indices_not_empty)
  with assms Inr have "st' = st\<lparr>cascade := (cascade st)
                          \<lparr>cascades := AList.update (m ! 0) ixs (cascades (cascade st))\<rparr>,
                        subcasc_indices :=
                          (if Some (m ! 0) = Some s then ixs else subcasc_indices st)\<rparr>"
    by (simp add: parse_line_def Let_def)
  with \<open>ixs \<noteq> []\<close> assms(5) show ?thesis
    by (simp add: tracks_def update_conv')
qed

lemma parse_lines_tracks:
  "parse_lines load d cn (Some s) st ls = Inr st' \<Longrightarrow> tracks s st \<Longrightarrow> tracks s st'"
  by (induction ls arbitrary: st) (auto split: sum.splits dest: parse_line_tracks)


text \<open>
  C8, as the code has it. \<open>parse\<close> is called with \<open>create_networks\<close> true and with the label
  \<open>s\<close>; the text has declared the subcascade \<open>s\<close> (the line \<open>decl\<close>) and the lines \<open>mid\<close> after
  it have been read without an exception. Then \<open>_cascades\<close> holds a list of indices for \<open>s\<close>,
  not empty, and a line \<open>>label<\<close> or \<open>+label+\<close> calls \<open>FST.load\<close> exactly when the number of
  elements the cascade has so far is in that list; otherwise the string \<open>'FST'\<close> followed
  by that number is appended. With \<open>create_networks\<close> false such a line changes nothing.
\<close>

theorem subcascade_lazy_loading:
  assumes "clean decl \<noteq> []" "re_match WEIGHTING_RE (clean decl) = None"
    and "re_match SUBCASC_RE (clean decl) = Some m" "m ! 0 = s"
    and "parse_lines load d True (Some s) st0 (decl # mid) = Inr st"
    and "clean raw \<noteq> []" "re_match WEIGHTING_RE (clean raw) = None"
    and "re_match SUBCASC_RE (clean raw) = None" "re_match SS_RE (clean raw) = None"
  shows "\<exists>ixs. ixs \<noteq> [] \<and> map_of (cascades (cascade st)) s = Some ixs \<and>
     (\<forall>g. re_match CASC_FST_RE (clean raw) = Some g \<longrightarrow>
        parse_line load d True (Some s) st raw =
          (if int (length (elems (cascade st))) \<in> set ixs
           then (case load (path_join d (g ! 0 @ ''.fst'')) (weighting (cascade st)) False of
                   Inl e \<Rightarrow> Inl e
                 | Inr f \<Rightarrow> Inr (append_elem (Loaded f) st))
           else Inr (append_elem
                  (Placeholder (''FST'' @ str_nat (length (elems (cascade st))))) st)) \<and>
        parse_line load d False (Some s) st raw = Inr st) \<and>
     (\<forall>g. re_match CASC_FST_RE (clean raw) = None \<and>
          re_match CASC_LEX_RE (clean raw) = Some g \<longrightarrow>
        parse_line load d True (Some s) st raw =
          (if int (length (elems (cascade st))) \<in> set ixs
           then (case load (path_join d (g ! 0 @ ''.lex'')) (weighting (cascade st)) True of
                   Inl e \<Rightarrow> Inl e
                 | Inr f \<Rightarrow> Inr (append_elem (Loaded f) st))
           else Inr (append_elem
                  (Placeholder (''FST'' @ str_nat (length (elems (cascade st))))) st)) \<and>
        parse_line load d False (Some s) st raw = Inr st)"
proof -
  from assms(5) obtain st1 where
    d: "parse_line load d True (Some s) st0 decl = Inr st1" and
    r: "parse_lines load d True (Some s) st1 mid = Inr st"
    by (auto split: sum.splits)
  have "tracks s st1" using parse_line_declares [OF d assms(1-4)] .
  then have t: "tracks s st" using parse_lines_tracks [OF r] by simp
  have ne: "subcasc_indices st \<noteq> []"
    and ix: "map_of (cascades (cascade st)) s = Some (subcasc_indices st)"
    using t by (simp_all add: tracks_def)
  have fst_line: "parse_line load d True (Some s) st raw =
          (if int (length (elems (cascade st))) \<in> set (subcasc_indices st)
           then (case load (path_join d (g ! 0 @ ''.fst'')) (weighting (cascade st)) False of
                   Inl e \<Rightarrow> Inl e
                 | Inr f \<Rightarrow> Inr (append_elem (Loaded f) st))
           else Inr (append_elem
                  (Placeholder (''FST'' @ str_nat (length (elems (cascade st))))) st)) \<and>
        parse_line load d False (Some s) st raw = Inr st"
    if "re_match CASC_FST_RE (clean raw) = Some g" for g
    using ne by (simp add: parse_line_fst [OF assms(6-9) that] load_or_skip_def)
  have lex_line: "parse_line load d True (Some s) st raw =
          (if int (length (elems (cascade st))) \<in> set (subcasc_indices st)
           then (case load (path_join d (g ! 0 @ ''.lex'')) (weighting (cascade st)) True of
                   Inl e \<Rightarrow> Inl e
                 | Inr f \<Rightarrow> Inr (append_elem (Loaded f) st))
           else Inr (append_elem
                  (Placeholder (''FST'' @ str_nat (length (elems (cascade st))))) st)) \<and>
        parse_line load d False (Some s) st raw = Inr st"
    if "re_match CASC_FST_RE (clean raw) = None" "re_match CASC_LEX_RE (clean raw) = Some g" for g
    using ne by (simp add: parse_line_lex [OF assms(6-9) that] load_or_skip_def)
  show ?thesis
    using ne ix fst_line lex_line by blast
qed

theorem subcascade_lazy_loading_witness:
  "parse_line (\<lambda>p w l. Inr p) ''dir'' True (Some ''p'')
     \<lparr>cascade = \<lparr>elems = [], label = ''c'', stringsets = [], weighting = Unification,
                  cascades = [(''p'', [1])]\<rparr>, subcasc_indices = [1]\<rparr> ''>a<''
   = Inr \<lparr>cascade = \<lparr>elems = [Placeholder ''FST0''], label = ''c'', stringsets = [],
                        weighting = Unification, cascades = [(''p'', [1])]\<rparr>,
          subcasc_indices = [1]\<rparr>"
proof -
  let ?load = "\<lambda>(p::string) (w::sr_tag) (l::bool). (Inr p :: pyerr + string)"
  let ?st0 = "\<lparr>cascade = new_cascade ''c'', subcasc_indices = []\<rparr> :: string parse_state"
  let ?st = "\<lparr>cascade = \<lparr>elems = [], label = ''c'', stringsets = [], weighting = Unification,
                  cascades = [(''p'', [1])]\<rparr>, subcasc_indices = [1]\<rparr> :: string parse_state"
  have h1: "clean ''cascade p = {1}'' \<noteq> []" by code_simp
  have h2: "re_match WEIGHTING_RE (clean ''cascade p = {1}'') = None" by code_simp
  have h3: "re_match SUBCASC_RE (clean ''cascade p = {1}'') = Some [''p'', ''1'']" by code_simp
  have h4: "[''p'', ''1''] ! 0 = ''p''" by simp
  have h5: "parse_lines ?load ''dir'' True (Some ''p'') ?st0 (''cascade p = {1}'' # []) = Inr ?st"
    by code_simp
  have h6: "clean ''>a<'' \<noteq> []" by code_simp
  have h7: "re_match WEIGHTING_RE (clean ''>a<'') = None" by code_simp
  have h8: "re_match SUBCASC_RE (clean ''>a<'') = None" by code_simp
  have h9: "re_match SS_RE (clean ''>a<'') = None" by code_simp
  have g: "re_match CASC_FST_RE (clean ''>a<'') = Some [''a'']" by code_simp
  from subcascade_lazy_loading [OF h1 h2 h3 h4 h5 h6 h7 h8 h9]
  obtain ixs where ix: "map_of (cascades (cascade ?st)) ''p'' = Some ixs"
    and F: "\<forall>g. re_match CASC_FST_RE (clean ''>a<'') = Some g \<longrightarrow>
        parse_line ?load ''dir'' True (Some ''p'') ?st ''>a<'' =
          (if int (length (elems (cascade ?st))) \<in> set ixs
           then (case ?load (path_join ''dir'' (g ! 0 @ ''.fst'')) (weighting (cascade ?st)) False of
                   Inl e \<Rightarrow> Inl e
                 | Inr f \<Rightarrow> Inr (append_elem (Loaded f) ?st))
           else Inr (append_elem
                  (Placeholder (''FST'' @ str_nat (length (elems (cascade ?st))))) ?st)) \<and>
        parse_line ?load ''dir'' False (Some ''p'') ?st ''>a<'' = Inr ?st"
    by blast
  from ix have "ixs = [1]" by simp
  moreover have "str_nat 0 = ''0''" by code_simp
  ultimately show ?thesis
    using F g by (simp add: append_elem_def)
qed


text \<open>
  C8 as stated fails when \<open>create_networks\<close> is false: the two lines that name
  transducers append nothing, neither a transducer nor a placeholder.
\<close>

theorem subcascade_no_networks_counterexample:
  "parse (\<lambda>p w l. Inr p) ''c''
     (''cascade p = {1}'' @ [CHR 0x0A] @ ''>a<'' @ [CHR 0x0A] @ ''>b<'') ''dir'' False (Some ''p'')
   = Inr \<lparr>elems = ([] :: string elem list), label = ''c'', stringsets = [],
          weighting = Unification, cascades = [(''p'', [1])]\<rparr>"
  by code_simp

end
